theory Spec2Isabelle
  imports Complex_Main "HOL-Library.AList"
begin

section \<open>The PERT/CPM engine of \<open>apps/pert-chart/src/logic/pert.ts\<close>\<close>

text \<open>
  Conventions of the embedding.

  \<^item> A JavaScript \<open>number\<close> is modelled as a rational: \<open>+\<close>, \<open>-\<close>, \<open>/\<close>,
    \<open>Math.max\<close>, \<open>Math.min\<close> and \<open>Math.abs\<close> are exact. Rounding of IEEE doubles,
    \<open>NaN\<close> and infinite estimates are outside the model.
  \<^item> A JavaScript \<open>Map\<close> is an association list with distinct keys in insertion
    order; \<open>Map.set\<close> is \<open>AList.update\<close> (an existing key keeps its position, a
    new key goes to the end) and \<open>Map.get\<close> is \<open>map_of\<close>.
  \<^item> A JavaScript \<open>Set\<close> of which only membership is used is a HOL set.
  \<^item> An exception is the \<open>Inl\<close> of a sum; \<open>console.error\<close> appends to a list of
    lines returned next to the result.
\<close>

subsection \<open>Data model\<close>

record PertTask =
  task_id :: string
  name :: string
  optimistic :: rat
  likely :: rat
  pessimistic :: rat
  dependencies :: "string list"
  category :: "string option"
  startDate :: "string option"
  timeUnit :: "string option"

record PertNode = PertTask +
  duration :: rat
  earlyStart :: rat
  earlyFinish :: rat
  lateStart :: rat
  lateFinish :: rat
  slack :: rat
  isCritical :: bool

text \<open>
  \<open>TypeError\<close>: a property of \<open>undefined\<close> is read or written.
  \<open>RangeError\<close>: \<open>toISOString\<close> of an invalid date.
  \<open>Unrepresentable\<close>: the source would store \<open>Infinity\<close> in a node, a value the
  rationals do not have; \<open>calculateCPM_Inl\<close> below shows that
  \<open>calculateCPM\<close> never gets there.
\<close>

datatype error = TypeError | RangeError | Unrepresentable

type_synonym nodeMap = "(string \<times> PertNode) list"

subsection \<open>Expected duration\<close>

definition calculateExpectedTime :: "'a PertTask_scheme \<Rightarrow> rat" where
  "calculateExpectedTime task = (optimistic task + 4 * likely task + pessimistic task) / 6"

subsection \<open>Topological sort\<close>

record dfs_state =
  visited :: "string set"
  temp :: "string set"
  order :: "string list"

text \<open>
  The closure \<open>visit\<close> returns \<open>false\<close> on a back edge and \<open>true\<close> otherwise, and
  mutates \<open>visited\<close>, \<open>temp\<close> and \<open>order\<close>. Here it returns \<open>None\<close> for \<open>false\<close>
  (the caller then drops the state) and the new state for \<open>true\<close>. \<open>visit_deps\<close>
  is the \<open>for (const depId of task.dependencies)\<close> loop.
\<close>

function visit :: "(string \<times> PertTask) list \<Rightarrow> string \<Rightarrow> dfs_state \<Rightarrow> dfs_state option"
  and visit_deps :: "(string \<times> PertTask) list \<Rightarrow> string list \<Rightarrow> dfs_state \<Rightarrow> dfs_state option"
  where
    "visit taskMap taskId s =
      (if taskId \<in> temp s then None
       else if taskId \<in> visited s then Some s
       else
         (case (case map_of taskMap taskId of
                  None \<Rightarrow> Some (s\<lparr>temp := insert taskId (temp s)\<rparr>)
                | Some task \<Rightarrow>
                    visit_deps taskMap (dependencies task) (s\<lparr>temp := insert taskId (temp s)\<rparr>)) of
            None \<Rightarrow> None
          | Some s' \<Rightarrow>
              Some (s'\<lparr>temp := temp s' - {taskId},
                       visited := insert taskId (visited s'),
                       order := order s' @ [taskId]\<rparr>)))"
  | "visit_deps taskMap [] s = Some s"
  | "visit_deps taskMap (depId # rest) s =
      (case visit taskMap depId s of
         None \<Rightarrow> None
       | Some s' \<Rightarrow> visit_deps taskMap rest s')"
  by pat_completeness auto

lemma visit_grows_dom:
  "visit_visit_deps_dom (Inl (tm, x, s)) \<Longrightarrow> visit tm x s = Some s'
     \<Longrightarrow> temp s \<union> visited s \<subseteq> temp s' \<union> visited s'"
  "visit_visit_deps_dom (Inr (tm, ds, s)) \<Longrightarrow> visit_deps tm ds s = Some s''
     \<Longrightarrow> temp s \<union> visited s \<subseteq> temp s'' \<union> visited s''"
proof (induction tm x s and tm ds s arbitrary: s' and s'' rule: visit_visit_deps.pinduct)
  case (1 taskMap taskId s)
  show ?case
  proof (cases "map_of taskMap taskId")
    case None
    with 1(1,3) show ?thesis
      by (auto simp: visit.psimps split: if_splits)
  next
    case (Some task)
    show ?thesis
    proof (cases "taskId \<in> temp s \<or> taskId \<in> visited s")
      case True
      with 1(1,3) show ?thesis
        by (auto simp: visit.psimps split: if_splits)
    next
      case False
      with Some 1(1,3) obtain s2 where
        s2: "visit_deps taskMap (dependencies task) (s\<lparr>temp := insert taskId (temp s)\<rparr>) = Some s2"
        and s': "s' = s2\<lparr>temp := temp s2 - {taskId}, visited := insert taskId (visited s2),
                   order := order s2 @ [taskId]\<rparr>"
        by (auto simp: visit.psimps split: option.splits)
      from 1(2)[OF _ _ Some s2] False
      have "insert taskId (temp s) \<union> visited s \<subseteq> temp s2 \<union> visited s2"
        by simp
      with s' show ?thesis by auto
    qed
  qed
next
  case (2 taskMap s)
  then show ?case by (simp add: visit_deps.psimps)
next
  case (3 taskMap depId rest s)
  then show ?case
    by (simp add: visit_deps.psimps split: option.splits) blast
qed

text \<open>
  Every call that recurses marks a key of \<open>taskMap\<close> that was neither in \<open>temp\<close> nor in
  \<open>visited\<close>, and a call that returns \<open>true\<close> leaves \<open>temp \<union> visited\<close> no smaller:
  the number of unmarked keys decreases, so the recursion ends on every input.
\<close>

termination visit
proof (relation "inv_image (less_than <*lex*> less_than)
    (\<lambda>a. case a of
        Inl (tm, x, s) \<Rightarrow> (card (fst ` set tm - (temp s \<union> visited s)), 0)
      | Inr (tm, ds, s) \<Rightarrow> (card (fst ` set tm - (temp s \<union> visited s)), Suc (length ds)))",
    goal_cases)
  case 1
  show ?case by (intro wf_inv_image wf_lex_prod wf_less_than)
next
  case (2 taskMap taskId s task)
  have "taskId \<in> fst ` set taskMap"
    using 2(3) by (metis map_of_SomeD fst_conv image_eqI)
  then have "fst ` set taskMap - (insert taskId (temp s) \<union> visited s)
      \<subset> fst ` set taskMap - (temp s \<union> visited s)"
    using 2(1,2) by auto
  then show ?case
    by (simp add: psubset_card_mono)
next
  case (3 taskMap depId rest s)
  show ?case by simp
next
  case (4 taskMap depId rest s s')
  have "temp s \<union> visited s \<subseteq> temp s' \<union> visited s'"
    using visit_grows_dom(1)[OF 4(2) 4(1)] .
  then have "card (fst ` set taskMap - (temp s' \<union> visited s'))
      \<le> card (fst ` set taskMap - (temp s \<union> visited s))"
    by (intro card_mono) auto
  then show ?case by auto
qed

declare visit.simps [simp del]

text \<open>\<open>new Map(tasks.map(t => [t.id, t]))\<close>: a later task replaces an earlier one of the same id.\<close>

definition taskMap_of :: "PertTask list \<Rightarrow> (string \<times> PertTask) list" where
  "taskMap_of tasks = foldl (\<lambda>m t. AList.update (task_id t) t m) [] tasks"

text \<open>The \<open>for (const task of tasks)\<close> loop of \<open>topologicalSort\<close>.\<close>

fun sort_loop :: "(string \<times> PertTask) list \<Rightarrow> PertTask list \<Rightarrow> dfs_state \<Rightarrow> dfs_state option" where
  "sort_loop taskMap [] s = Some s"
| "sort_loop taskMap (task # rest) s =
    (if task_id task \<notin> visited s
     then (case visit taskMap (task_id task) s of
             None \<Rightarrow> None
           | Some s' \<Rightarrow> sort_loop taskMap rest s')
     else sort_loop taskMap rest s)"

definition topologicalSort :: "PertTask list \<Rightarrow> string list option" where
  "topologicalSort tasks =
    map_option order
      (sort_loop (taskMap_of tasks) tasks \<lparr>visited = {}, temp = {}, order = []\<rparr>)"

subsection \<open>Critical path method\<close>

definition initial_node :: "PertTask \<Rightarrow> PertNode" where
  "initial_node task =
    \<lparr>task_id = task_id task, name = name task, optimistic = optimistic task,
     likely = likely task, pessimistic = pessimistic task,
     dependencies = dependencies task, category = category task,
     startDate = startDate task, timeUnit = timeUnit task,
     duration = calculateExpectedTime task,
     earlyStart = 0, earlyFinish = 0, lateStart = 0, lateFinish = 0,
     slack = 0, isCritical = False\<rparr>"

definition initial_nodeMap :: "PertTask list \<Rightarrow> nodeMap" where
  "initial_nodeMap tasks =
    foldl (\<lambda>m task. AList.update (task_id task) (initial_node task) m) [] tasks"

definition add_successor :: "string \<Rightarrow> (string \<times> string list) list \<Rightarrow> string
    \<Rightarrow> (string \<times> string list) list" where
  "add_successor taskId m depId =
    (case map_of m depId of
       None \<Rightarrow> m
     | Some succs \<Rightarrow> AList.update depId (succs @ [taskId]) m)"

definition successorsMap_of :: "PertTask list \<Rightarrow> (string \<times> string list) list" where
  "successorsMap_of tasks =
    foldl (\<lambda>m task. foldl (add_successor (task_id task)) m (dependencies task))
      (foldl (\<lambda>m t. AList.update (task_id t) [] m) [] tasks)
      tasks"

definition maxPredecessorEF :: "nodeMap \<Rightarrow> string list \<Rightarrow> rat" where
  "maxPredecessorEF nodeMap deps =
    foldl (\<lambda>m depId. case map_of nodeMap depId of
                        None \<Rightarrow> m
                      | Some depNode \<Rightarrow> max m (earlyFinish depNode))
      0 deps"

definition forward_node :: "nodeMap \<Rightarrow> PertNode \<Rightarrow> PertNode" where
  "forward_node nodeMap node =
    node\<lparr>earlyStart := maxPredecessorEF nodeMap (dependencies node),
         earlyFinish := maxPredecessorEF nodeMap (dependencies node) + duration node\<rparr>"

text \<open>
  \<open>sortedIds.forEach\<close> of the forward pass. \<open>nodeMap.get(id)!\<close> is \<open>undefined\<close> for an id
  that is no key, and reading \<open>node.dependencies\<close> then throws.
\<close>

fun forward_pass :: "string list \<Rightarrow> nodeMap \<Rightarrow> error + nodeMap" where
  "forward_pass [] nodeMap = Inr nodeMap"
| "forward_pass (i # ids) nodeMap =
    (case map_of nodeMap i of
       None \<Rightarrow> Inl TypeError
     | Some node \<Rightarrow> forward_pass ids (AList.update i (forward_node nodeMap node) nodeMap))"

definition projectDuration_of :: "nodeMap \<Rightarrow> rat" where
  "projectDuration_of nodeMap = foldl (\<lambda>pd (k, n). max pd (earlyFinish n)) 0 nodeMap"

text \<open>\<open>minSuccessorLS\<close> starts at \<open>Infinity\<close>, here \<open>None\<close>; \<open>Math.min(Infinity, x) = x\<close>.\<close>

definition minSuccessorLS :: "nodeMap \<Rightarrow> string list \<Rightarrow> rat option" where
  "minSuccessorLS nodeMap successors =
    foldl (\<lambda>m succId. case map_of nodeMap succId of
                         None \<Rightarrow> m
                       | Some succNode \<Rightarrow>
                           (case m of
                              None \<Rightarrow> Some (lateStart succNode)
                            | Some l \<Rightarrow> Some (min l (lateStart succNode))))
      None successors"

text \<open>\<open>successorsMap.get(id) || []\<close>; an array, also an empty one, is truthy.\<close>

definition successors_in :: "(string \<times> string list) list \<Rightarrow> string \<Rightarrow> string list" where
  "successors_in successorsMap i = (case map_of successorsMap i of None \<Rightarrow> [] | Some l \<Rightarrow> l)"

definition backward_node :: "rat \<Rightarrow> (string \<times> string list) list \<Rightarrow> nodeMap \<Rightarrow> string
    \<Rightarrow> PertNode \<Rightarrow> error + PertNode" where
  "backward_node projectDuration successorsMap nodeMap i node =
    (let successors = successors_in successorsMap i in
     case (if successors = [] then Some projectDuration
           else minSuccessorLS nodeMap successors) of
       None \<Rightarrow> Inl Unrepresentable
     | Some lf \<Rightarrow>
         Inr (node\<lparr>lateFinish := lf,
                   lateStart := lf - duration node,
                   slack := lf - duration node - earlyStart node,
                   isCritical := \<bar>lf - duration node - earlyStart node\<bar> < 1 / 100\<rparr>))"

text \<open>
  \<open>[...sortedIds].reverse().forEach\<close> of the backward pass, given the reversed list.
  Writing \<open>node.lateFinish\<close> throws when \<open>nodeMap.get(id)!\<close> is \<open>undefined\<close>.
\<close>

fun backward_pass :: "rat \<Rightarrow> (string \<times> string list) list \<Rightarrow> string list \<Rightarrow> nodeMap
    \<Rightarrow> error + nodeMap" where
  "backward_pass projectDuration successorsMap [] nodeMap = Inr nodeMap"
| "backward_pass projectDuration successorsMap (i # ids) nodeMap =
    (case map_of nodeMap i of
       None \<Rightarrow> Inl TypeError
     | Some node \<Rightarrow>
         (case backward_node projectDuration successorsMap nodeMap i node of
            Inl e \<Rightarrow> Inl e
          | Inr node' \<Rightarrow>
              backward_pass projectDuration successorsMap ids (AList.update i node' nodeMap)))"

text \<open>
  The result is the console output and \<open>Array.from(nodeMap.values())\<close>. A cycle is
  logged and the initial nodes are returned.
\<close>

definition calculateCPM :: "PertTask list \<Rightarrow> error + (string list \<times> PertNode list)" where
  "calculateCPM tasks =
    (let nodeMap = initial_nodeMap tasks;
         successorsMap = successorsMap_of tasks
     in case topologicalSort tasks of
          None \<Rightarrow> Inr ([''Cycle detected in graph!''], map snd nodeMap)
        | Some sortedIds \<Rightarrow>
            (case forward_pass sortedIds nodeMap of
               Inl e \<Rightarrow> Inl e
             | Inr nodeMap1 \<Rightarrow>
                 (case backward_pass (projectDuration_of nodeMap1) successorsMap
                         (rev sortedIds) nodeMap1 of
                    Inl e \<Rightarrow> Inl e
                  | Inr nodeMap2 \<Rightarrow> Inr ([], map snd nodeMap2))))"

subsection \<open>Project duration\<close>

text \<open>
  \<open>projectDuration\<close> of \<open>App.tsx\<close>:
  \<open>pertNodes.reduce((max, node) => Math.max(max, node.earlyFinish), 0)\<close>.
\<close>

definition projectDuration :: "PertNode list \<Rightarrow> rat" where
  "projectDuration pertNodes = foldl (\<lambda>mx node. max mx (earlyFinish node)) 0 pertNodes"

subsection \<open>Calendar projection\<close>

text \<open>
  The \<open>Date\<close> objects of the JavaScript host are no part of the repository. They are
  modelled from ECMA-262: a time value is a number of milliseconds since
  1970-01-01T00:00:00Z, \<open>None\<close> stands for the time value \<open>NaN\<close> of an invalid date,
  and the host contributes its local time zone and its \<open>Date.parse\<close>. The offset
  of local time is fixed (no daylight saving); what \<open>Date.parse\<close> makes of a string is
  left to the host, as ECMA-262 leaves it for strings outside its date-time format.
\<close>

record host =
  localTZA :: int
  date_parse :: "string \<Rightarrow> int option"

definition msPerDay :: int where
  "msPerDay = 86400000"

definition Day :: "int \<Rightarrow> int" where
  "Day t = t div msPerDay"

definition TimeWithinDay :: "int \<Rightarrow> int" where
  "TimeWithinDay t = t mod msPerDay"

text \<open>
  Day number (days since 1970-01-01) of a date of the proleptic Gregorian calendar and
  back, months counted from 1; \<open>div\<close> rounds down.
\<close>

definition days_from_civil :: "int \<Rightarrow> int \<Rightarrow> int \<Rightarrow> int" where
  "days_from_civil y m d =
    (let y' = (if m \<le> 2 then y - 1 else y);
         era = y' div 400;
         yoe = y' - era * 400;
         doy = (153 * (if m > 2 then m - 3 else m + 9) + 2) div 5 + d - 1;
         doe = yoe * 365 + yoe div 4 - yoe div 100 + doy
     in era * 146097 + doe - 719468)"

definition civil_from_days :: "int \<Rightarrow> int \<times> int \<times> int" where
  "civil_from_days z =
    (let z' = z + 719468;
         era = z' div 146097;
         doe = z' - era * 146097;
         yoe = (doe - doe div 1460 + doe div 36524 - doe div 146096) div 365;
         doy = doe - (365 * yoe + yoe div 4 - yoe div 100);
         mp = (5 * doy + 2) div 153;
         d = doy - (153 * mp + 2) div 5 + 1;
         m = (if mp < 10 then mp + 3 else mp - 9);
         y = yoe + era * 400
     in (if m \<le> 2 then y + 1 else y, m, d))"

text \<open>\<open>MakeDay\<close> with the month counted from 0, \<open>MakeDate\<close>, \<open>TimeClip\<close>.\<close>

definition MakeDay :: "int \<Rightarrow> int \<Rightarrow> int \<Rightarrow> int" where
  "MakeDay year month dt =
    days_from_civil (year + month div 12) (month mod 12 + 1) 1 + dt - 1"

definition MakeDate :: "int \<Rightarrow> int \<Rightarrow> int" where
  "MakeDate day time = day * msPerDay + time"

definition TimeClip :: "int \<Rightarrow> int option" where
  "TimeClip t = (if \<bar>t\<bar> > 8640000000000000 then None else Some t)"

definition LocalTime :: "host \<Rightarrow> int \<Rightarrow> int" where
  "LocalTime h t = t + localTZA h"

definition UTC :: "host \<Rightarrow> int \<Rightarrow> int" where
  "UTC h t = t - localTZA h"

text \<open>\<open>new Date(string)\<close>, \<open>getDate()\<close> and \<open>setDate(dt)\<close> (both in local time).\<close>

definition new_Date :: "host \<Rightarrow> string \<Rightarrow> int option" where
  "new_Date h s = Option.bind (date_parse h s) TimeClip"

definition getDate :: "host \<Rightarrow> int \<Rightarrow> int" where
  "getDate h tv = (case civil_from_days (Day (LocalTime h tv)) of (y, m, d) \<Rightarrow> d)"

definition setDate :: "host \<Rightarrow> int \<Rightarrow> int \<Rightarrow> int option" where
  "setDate h tv dt =
    (let t = LocalTime h tv in
     case civil_from_days (Day t) of
       (y, m, d) \<Rightarrow> TimeClip (UTC h (MakeDate (MakeDay y (m - 1) dt) (TimeWithinDay t))))"

text \<open>
  \<open>toISOString()\<close> prints the time value in UTC and throws a \<open>RangeError\<close> for an
  invalid date; years outside 0 to 9999 are printed with a sign and six digits.
\<close>

definition digit_char :: "nat \<Rightarrow> char" where
  "digit_char n = ''0123456789'' ! (n mod 10)"

fun pad_digits :: "nat \<Rightarrow> nat \<Rightarrow> string" where
  "pad_digits 0 n = []"
| "pad_digits (Suc w) n = pad_digits w (n div 10) @ [digit_char n]"

definition toISOString :: "int option \<Rightarrow> error + string" where
  "toISOString tv =
    (case tv of
       None \<Rightarrow> Inl RangeError
     | Some t \<Rightarrow>
         (case civil_from_days (Day t) of
            (y, m, d) \<Rightarrow>
              Inr ((if 0 \<le> y \<and> y \<le> 9999 then pad_digits 4 (nat y)
                    else (if y < 0 then ''-'' else ''+'') @ pad_digits 6 (nat \<bar>y\<bar>))
                   @ ''-'' @ pad_digits 2 (nat m) @ ''-'' @ pad_digits 2 (nat d)
                   @ ''T'' @ pad_digits 2 (nat (TimeWithinDay t div 3600000))
                   @ '':'' @ pad_digits 2 (nat (TimeWithinDay t div 60000 mod 60))
                   @ '':'' @ pad_digits 2 (nat (TimeWithinDay t div 1000 mod 60))
                   @ ''.'' @ pad_digits 3 (nat (TimeWithinDay t mod 1000)) @ ''Z'')))"

text \<open>\<open>.split('T')[0]\<close>: the part before the first \<open>T\<close>.\<close>

definition before_T :: "string \<Rightarrow> string" where
  "before_T s = takeWhile (\<lambda>c. c \<noteq> CHR ''T'') s"

record CalendarRange =
  startDate :: string
  endDate :: string

text \<open>
  The \<open>for (const node of pertNodes)\<close> loop of \<open>computeCalendarDates\<close>; \<open>Math.round\<close>
  rounds to the nearest integer, a half upwards, as \<open>round\<close> does.
\<close>

fun project_nodes :: "host \<Rightarrow> int \<Rightarrow> PertNode list \<Rightarrow> (string \<times> CalendarRange) list
    \<Rightarrow> error + (string \<times> CalendarRange) list" where
  "project_nodes h base [] result = Inr result"
| "project_nodes h base (node # rest) result =
    (let start = setDate h base (getDate h base + round (earlyStart node));
         finish = setDate h base (getDate h base + round (earlyFinish node))
     in case toISOString start of
          Inl e \<Rightarrow> Inl e
        | Inr s \<Rightarrow>
            (case toISOString finish of
               Inl e \<Rightarrow> Inl e
             | Inr f \<Rightarrow>
                 project_nodes h base rest
                   (AList.update (task_id node)
                      \<lparr>startDate = before_T s, endDate = before_T f\<rparr> result)))"

definition computeCalendarDates :: "host \<Rightarrow> PertNode list \<Rightarrow> string
    \<Rightarrow> error + (string \<times> CalendarRange) list" where
  "computeCalendarDates h pertNodes projectStartDate =
    (case new_Date h (projectStartDate @ ''T00:00:00'') of
       None \<Rightarrow> Inr []
     | Some base \<Rightarrow> project_nodes h base pertNodes [])"

section \<open>Notions of the specification\<close>

subsection \<open>The dependency graph\<close>

text \<open>
  The graph the sorter walks: an edge from a key of \<open>taskMap\<close> to each dependency its
  task declares. For a list with unique ids (the data model's assumption) these are the
  declared dependencies of the list; an id that no task has is a node without outgoing
  edges and so lies on no cycle.
\<close>

definition dependency_edges :: "PertTask list \<Rightarrow> (string \<times> string) list" where
  "dependency_edges tasks =
     concat (map (\<lambda>(i, t). map (Pair i) (dependencies t)) (taskMap_of tasks))"

definition has_cycle :: "PertTask list \<Rightarrow> bool" where
  "has_cycle tasks \<longleftrightarrow>
     (\<exists>a\<in>set (map fst (dependency_edges tasks)). (a, a) \<in> (set (dependency_edges tasks))\<^sup>+)"

text \<open>Every dependency id of the list is the id of a task of the list.\<close>

definition deps_resolve :: "PertTask list \<Rightarrow> bool" where
  "deps_resolve tasks \<longleftrightarrow>
     list_all (\<lambda>t. list_all (\<lambda>d. d \<in> set (map task_id tasks)) (dependencies t)) tasks"

subsection \<open>Predecessors, successors and critical paths of a result\<close>

text \<open>
  The nodes of a result that a node lists as dependencies, and the nodes that list it.
\<close>

definition predecessors :: "PertNode list \<Rightarrow> PertNode \<Rightarrow> PertNode list" where
  "predecessors nodes n = filter (\<lambda>m. task_id m \<in> set (dependencies n)) nodes"

definition successors :: "PertNode list \<Rightarrow> PertNode \<Rightarrow> PertNode list" where
  "successors nodes n = filter (\<lambda>m. task_id n \<in> set (dependencies m)) nodes"



subsection \<open>Auxiliary notions of the proofs\<close>

text \<open>
  The edges of the graph as a relation, the dependencies of an id in \<open>taskMap\<close>, lists in
  which every element comes after its dependencies, the invariant of the depth-first
  search, lists in which no element is followed by one of its \<open>nxt\<close> elements or by
  itself, and nodes that differ from the initial node of a task only in the fields the
  passes write.
\<close>

definition dep_edges :: "(string \<times> PertTask) list \<Rightarrow> (string \<times> string) set" where
  "dep_edges tm = {(a, b). \<exists>t. map_of tm a = Some t \<and> b \<in> set (dependencies t)}"

definition deps_in :: "(string \<times> PertTask) list \<Rightarrow> string \<Rightarrow> string list" where
  "deps_in tm x = (case map_of tm x of None \<Rightarrow> [] | Some t \<Rightarrow> dependencies t)"

definition deps_before :: "(string \<Rightarrow> string list) \<Rightarrow> string list \<Rightarrow> bool" where
  "deps_before dps xs \<longleftrightarrow> (\<forall>ys x zs. xs = ys @ x # zs \<longrightarrow> set (dps x) \<subseteq> set ys)"

definition dfs_inv :: "(string \<times> PertTask) list \<Rightarrow> dfs_state \<Rightarrow> bool" where
  "dfs_inv tm s \<longleftrightarrow>
     visited s \<inter> temp s = {} \<and>
     (\<forall>a\<in>visited s. \<forall>b. (a, b) \<in> dep_edges tm \<longrightarrow> b \<in> visited s) \<and>
     (\<forall>a\<in>visited s. (a, a) \<notin> (dep_edges tm)\<^sup>+) \<and>
     visited s = set (order s) \<and> distinct (order s) \<and>
     deps_before (deps_in tm) (order s)"

primrec ready :: "(string \<Rightarrow> string list) \<Rightarrow> string list \<Rightarrow> bool" where
  "ready nxt [] = True"
| "ready nxt (x # zs) = (set (nxt x) \<inter> insert x (set zs) = {} \<and> ready nxt zs)"

definition unchanged_by_passes :: "PertTask \<Rightarrow> PertNode \<Rightarrow> bool" where
  "unchanged_by_passes t n \<longleftrightarrow>
     n = (initial_node t)\<lparr>earlyStart := earlyStart n, earlyFinish := earlyFinish n,
          lateStart := lateStart n, lateFinish := lateFinish n, slack := slack n,
          isCritical := isCritical n\<rparr>"

section \<open>Concrete inputs\<close>

definition task_of :: "string \<Rightarrow> rat \<Rightarrow> rat \<Rightarrow> rat \<Rightarrow> string list \<Rightarrow> PertTask" where
  "task_of i opt lik pes deps =
    \<lparr>task_id = i, name = i, optimistic = opt, likely = lik, pessimistic = pes,
     dependencies = deps, category = None, startDate = None, timeUnit = None\<rparr>"

definition node_of :: "PertTask \<Rightarrow> rat \<Rightarrow> rat \<Rightarrow> rat \<Rightarrow> rat \<Rightarrow> rat \<Rightarrow> bool \<Rightarrow> PertNode" where
  "node_of t es ef ls lf sl cr =
    (initial_node t)\<lparr>earlyStart := es, earlyFinish := ef, lateStart := ls, lateFinish := lf,
       slack := sl, isCritical := cr\<rparr>"

definition cycle_ABC :: "PertTask list" where
  "cycle_ABC = [task_of ''A'' 1 2 3 [''B''], task_of ''B'' 2 3 6 [''C''], task_of ''C'' 1 2 4 [''A'']]"

text \<open>The scenario of the specification, section 8, item 7.\<close>

definition four_tasks :: "PertTask list" where
  "four_tasks =
    [task_of ''A'' 1 2 3 [], task_of ''B'' 2 3 6 [''A''],
     task_of ''C'' 1 2 4 [''A''], task_of ''D'' 3 5 8 [''B'', ''C'']]"

definition four_nodes :: "PertNode list" where
  "four_nodes =
    [node_of (task_of ''A'' 1 2 3 []) 0 2 0 2 0 True,
     node_of (task_of ''B'' 2 3 6 [''A'']) 2 (16 / 3) 2 (16 / 3) 0 True,
     node_of (task_of ''C'' 1 2 4 [''A'']) 2 (25 / 6) (19 / 6) (16 / 3) (7 / 6) False,
     node_of (task_of ''D'' 3 5 8 [''B'', ''C'']) (16 / 3) (21 / 2) (16 / 3) (21 / 2) 0 True]"

definition negative_estimates :: "PertTask list" where
  "negative_estimates = [task_of ''A'' (-6) 0 3 [], task_of ''B'' 2 3 6 [''A'']]"

definition negative_first :: "PertTask list" where
  "negative_first = [task_of ''A'' (-6) (-6) (-6) [], task_of ''B'' 6 6 6 [''A'']]"

text \<open>
  A reference \<open>Date.parse\<close> for concrete hosts: it accepts exactly the strings
  \<open>YYYY-MM-DDTHH:mm:ss\<close> of the ECMA-262 date-time format with fields in range, read as
  local time, and yields \<open>NaN\<close> for every other string.
\<close>

definition digit_val :: "char \<Rightarrow> nat option" where
  "digit_val c =
    (if 48 \<le> (of_char c :: nat) \<and> (of_char c :: nat) \<le> 57
     then Some ((of_char c :: nat) - 48) else None)"

definition number_of :: "string \<Rightarrow> nat option" where
  "number_of cs =
    foldl (\<lambda>acc c. case acc of
                      None \<Rightarrow> None
                    | Some a \<Rightarrow> (case digit_val c of None \<Rightarrow> None | Some d \<Rightarrow> Some (10 * a + d)))
      (Some 0) cs"

definition iso_fields :: "string \<Rightarrow> (nat \<times> nat \<times> nat \<times> nat \<times> nat \<times> nat) option" where
  "iso_fields s =
    (if length s = 19 \<and> s ! 4 = CHR ''-'' \<and> s ! 7 = CHR ''-'' \<and> s ! 10 = CHR ''T''
        \<and> s ! 13 = CHR '':'' \<and> s ! 16 = CHR '':''
     then
       (case number_of (take 4 s) of None \<Rightarrow> None | Some y \<Rightarrow>
        case number_of (take 2 (drop 5 s)) of None \<Rightarrow> None | Some m \<Rightarrow>
        case number_of (take 2 (drop 8 s)) of None \<Rightarrow> None | Some d \<Rightarrow>
        case number_of (take 2 (drop 11 s)) of None \<Rightarrow> None | Some hh \<Rightarrow>
        case number_of (take 2 (drop 14 s)) of None \<Rightarrow> None | Some mm \<Rightarrow>
        case number_of (take 2 (drop 17 s)) of None \<Rightarrow> None | Some ss \<Rightarrow>
          Some (y, m, d, hh, mm, ss))
     else None)"

definition iso_local_parse :: "int \<Rightarrow> string \<Rightarrow> int option" where
  "iso_local_parse tza s =
    (case iso_fields s of
       None \<Rightarrow> None
     | Some (y, m, d, hh, mm, ss) \<Rightarrow>
         if 1 \<le> m \<and> m \<le> 12 \<and> 1 \<le> d
            \<and> int d \<le> MakeDay (int y) (int m) 1 - MakeDay (int y) (int m - 1) 1
            \<and> hh \<le> 24 \<and> mm \<le> 59 \<and> ss \<le> 59 \<and> (hh < 24 \<or> (mm = 0 \<and> ss = 0))
         then Some (MakeDate (days_from_civil (int y) (int m) (int d))
                      (((int hh * 60 + int mm) * 60 + int ss) * 1000) - tza)
         else None)"

definition host_at :: "int \<Rightarrow> host" where
  "host_at offset_minutes =
    \<lparr>localTZA = offset_minutes * 60000,
     date_parse = iso_local_parse (offset_minutes * 60000)\<rparr>"

definition node_A_0_5 :: PertNode where
  "node_A_0_5 = node_of (task_of ''A'' 5 5 5 []) 0 5 0 5 0 True"

section \<open>Correctness of the topological sort\<close>

subsection \<open>What a successful visit does to the state\<close>

lemma visit_basic:
  "visit tm x s = Some s' \<Longrightarrow>
     temp s' = temp s \<and> x \<in> visited s' \<and>
     (\<exists>new. order s' = order s @ new \<and> visited s' = visited s \<union> set new)"
  "visit_deps tm ds s = Some s'' \<Longrightarrow>
     temp s'' = temp s \<and> set ds \<subseteq> visited s'' \<and>
     (\<exists>new. order s'' = order s @ new \<and> visited s'' = visited s \<union> set new)"
proof (induction tm x s and tm ds s arbitrary: s' and s'' rule: visit_visit_deps.induct)
  case (1 taskMap taskId s)
  show ?case
  proof (cases "taskId \<in> visited s")
    case True
    with 1(2) show ?thesis by (auto simp: visit.simps split: if_splits)
  next
    case nv: False
    from 1(2) have nt: "taskId \<notin> temp s" by (auto simp: visit.simps split: if_splits)
    show ?thesis
    proof (cases "map_of taskMap taskId")
      case None
      with 1(2) nv nt show ?thesis
        by (auto simp: visit.simps intro: exI[of _ "[taskId]"])
    next
      case (Some task)
      with 1(2) nv nt obtain s2 where
        s2: "visit_deps taskMap (dependencies task) (s\<lparr>temp := insert taskId (temp s)\<rparr>) = Some s2"
        and s': "s' = s2\<lparr>temp := temp s2 - {taskId}, visited := insert taskId (visited s2),
                   order := order s2 @ [taskId]\<rparr>"
        by (auto simp: visit.simps split: option.splits)
      from 1(1)[OF nt nv Some s2] obtain new where
        t2: "temp s2 = insert taskId (temp s)"
        and o2: "order s2 = order s @ new" and v2: "visited s2 = visited s \<union> set new"
        by auto
      have "order s' = order s @ (new @ [taskId]) \<and> visited s' = visited s \<union> set (new @ [taskId])"
        using s' o2 v2 by auto
      then have "\<exists>new. order s' = order s @ new \<and> visited s' = visited s \<union> set new"
        by blast
      with s' t2 nt show ?thesis by auto
    qed
  qed
next
  case (2 taskMap s)
  then show ?case by simp
next
  case (3 taskMap depId rest s)
  from 3(3) obtain s1 where s1: "visit taskMap depId s = Some s1"
    and r: "visit_deps taskMap rest s1 = Some s''"
    by (auto split: option.splits)
  from 3(1)[OF s1] obtain n1 where a: "temp s1 = temp s" "depId \<in> visited s1"
    "order s1 = order s @ n1" "visited s1 = visited s \<union> set n1" by auto
  from 3(2)[OF s1 r] obtain n2 where b: "temp s'' = temp s1" "set rest \<subseteq> visited s''"
    "order s'' = order s1 @ n2" "visited s'' = visited s1 \<union> set n2" by auto
  have "order s'' = order s @ (n1 @ n2) \<and> visited s'' = visited s \<union> set (n1 @ n2)"
    using a b by auto
  then have "\<exists>new. order s'' = order s @ new \<and> visited s'' = visited s \<union> set new"
    by blast
  with a b show ?case by auto
qed

lemma deps_before_Nil: "deps_before dps []"
  by (simp add: deps_before_def)

lemma deps_before_snoc:
  "deps_before dps (xs @ [x]) \<longleftrightarrow> deps_before dps xs \<and> set (dps x) \<subseteq> set xs"
proof
  assume a: "deps_before dps (xs @ [x])"
  have "deps_before dps xs"
    unfolding deps_before_def
  proof (intro allI impI)
    fix ys y zs assume "xs = ys @ y # zs"
    then have "xs @ [x] = ys @ y # (zs @ [x])" by simp
    with a show "set (dps y) \<subseteq> set ys" unfolding deps_before_def by blast
  qed
  moreover have "set (dps x) \<subseteq> set xs"
    using a unfolding deps_before_def by blast
  ultimately show "deps_before dps xs \<and> set (dps x) \<subseteq> set xs" ..
next
  assume a: "deps_before dps xs \<and> set (dps x) \<subseteq> set xs"
  show "deps_before dps (xs @ [x])"
    unfolding deps_before_def
  proof (intro allI impI)
    fix ys y zs assume e: "xs @ [x] = ys @ y # zs"
    show "set (dps y) \<subseteq> set ys"
    proof (cases zs rule: rev_cases)
      case Nil
      with e have "ys = xs" "y = x" by auto
      with a show ?thesis by simp
    next
      case (snoc zs' z)
      with e have "xs = ys @ y # zs'" by auto
      with a show ?thesis unfolding deps_before_def by blast
    qed
  qed
qed

lemma dep_edges_iff: "(a, b) \<in> dep_edges tm \<longleftrightarrow> b \<in> set (deps_in tm a)"
  by (cases "map_of tm a") (auto simp: dep_edges_def deps_in_def)

lemma closed_rtrancl:
  assumes "(a, b) \<in> E\<^sup>*" "a \<in> V" "\<forall>a\<in>V. \<forall>b. (a, b) \<in> E \<longrightarrow> b \<in> V"
  shows "b \<in> V"
  using assms by (induction rule: rtrancl_induct) auto

lemma dfs_inv_mark:
  "dfs_inv tm s \<Longrightarrow> x \<notin> visited s \<Longrightarrow> dfs_inv tm (s\<lparr>temp := insert x (temp s)\<rparr>)"
  by (auto simp: dfs_inv_def)

lemma dfs_inv_finish:
  assumes inv: "dfs_inv tm s2" and x: "x \<in> temp s2"
    and deps: "set (deps_in tm x) \<subseteq> visited s2"
  shows "dfs_inv tm (s2\<lparr>temp := temp s2 - {x}, visited := insert x (visited s2),
                        order := order s2 @ [x]\<rparr>)"
proof -
  let ?E = "dep_edges tm"
  have nx: "x \<notin> visited s2" using inv x by (auto simp: dfs_inv_def)
  have closed: "\<forall>a\<in>visited s2. \<forall>b. (a, b) \<in> ?E \<longrightarrow> b \<in> visited s2"
    using inv unfolding dfs_inv_def by blast
  have "(x, x) \<notin> ?E\<^sup>+"
  proof
    assume "(x, x) \<in> ?E\<^sup>+"
    then obtain d where d: "(x, d) \<in> ?E" and r: "(d, x) \<in> ?E\<^sup>*"
      by (meson tranclD)
    from d deps have "d \<in> visited s2" by (auto simp: dep_edges_iff)
    with r closed have "x \<in> visited s2" by (blast intro: closed_rtrancl)
    with nx show False by simp
  qed
  moreover have "\<forall>b. (x, b) \<in> ?E \<longrightarrow> b \<in> visited s2"
    using deps by (auto simp: dep_edges_iff)
  moreover have "deps_before (deps_in tm) (order s2 @ [x])"
    using inv deps by (simp add: deps_before_snoc dfs_inv_def)
  ultimately show ?thesis
    using inv nx by (auto simp: dfs_inv_def)
qed

lemma visit_inv:
  "visit tm x s = Some s' \<Longrightarrow> dfs_inv tm s \<Longrightarrow> dfs_inv tm s'"
  "visit_deps tm ds s = Some s'' \<Longrightarrow> dfs_inv tm s \<Longrightarrow> dfs_inv tm s''"
proof (induction tm x s and tm ds s arbitrary: s' and s'' rule: visit_visit_deps.induct)
  case (1 taskMap taskId s)
  show ?case
  proof (cases "taskId \<in> visited s")
    case True
    with 1(2,3) show ?thesis by (auto simp: visit.simps split: if_splits)
  next
    case nv: False
    from 1(2) have nt: "taskId \<notin> temp s" by (auto simp: visit.simps split: if_splits)
    let ?s1 = "s\<lparr>temp := insert taskId (temp s)\<rparr>"
    have inv1: "dfs_inv taskMap ?s1" using 1(3) nv by (rule dfs_inv_mark)
    show ?thesis
    proof (cases "map_of taskMap taskId")
      case None
      with 1(2) nv nt have s': "s' = ?s1\<lparr>temp := temp ?s1 - {taskId},
          visited := insert taskId (visited ?s1), order := order ?s1 @ [taskId]\<rparr>"
        by (auto simp: visit.simps)
      have "set (deps_in taskMap taskId) \<subseteq> visited ?s1"
        using None by (simp add: deps_in_def)
      with inv1 show ?thesis unfolding s' by (intro dfs_inv_finish) auto
    next
      case (Some task)
      with 1(2) nv nt obtain s2 where
        s2: "visit_deps taskMap (dependencies task) ?s1 = Some s2"
        and s': "s' = s2\<lparr>temp := temp s2 - {taskId}, visited := insert taskId (visited s2),
                   order := order s2 @ [taskId]\<rparr>"
        by (auto simp: visit.simps split: option.splits)
      have inv2: "dfs_inv taskMap s2"
        using 1(1)[OF nt nv Some s2 inv1] .
      from visit_basic(2)[OF s2] have "temp s2 = insert taskId (temp s)"
        and "set (dependencies task) \<subseteq> visited s2" by auto
      then show ?thesis unfolding s' using inv2 Some
        by (intro dfs_inv_finish) (auto simp: deps_in_def)
    qed
  qed
next
  case (2 taskMap s)
  then show ?case by simp
next
  case (3 taskMap depId rest s)
  from 3(3) obtain s1 where s1: "visit taskMap depId s = Some s1"
    and r: "visit_deps taskMap rest s1 = Some s''"
    by (auto split: option.splits)
  show ?case using 3(2)[OF s1 r 3(1)[OF s1 3(4)]] .
qed

lemma visit_None_cycle:
  "visit tm x s = None \<Longrightarrow> \<forall>b\<in>temp s. (b, x) \<in> (dep_edges tm)\<^sup>+
     \<Longrightarrow> \<exists>a. (a, a) \<in> (dep_edges tm)\<^sup>+"
  "visit_deps tm ds s = None \<Longrightarrow> \<forall>b\<in>temp s. \<forall>d\<in>set ds. (b, d) \<in> (dep_edges tm)\<^sup>+
     \<Longrightarrow> \<exists>a. (a, a) \<in> (dep_edges tm)\<^sup>+"
proof (induction tm x s and tm ds s rule: visit_visit_deps.induct)
  case (1 taskMap taskId s)
  show ?case
  proof (cases "taskId \<in> temp s")
    case True
    with 1(3) show ?thesis by blast
  next
    case nt: False
    with 1(2) have nv: "taskId \<notin> visited s" by (auto simp: visit.simps split: if_splits)
    from 1(2) nt nv obtain task where task: "map_of taskMap taskId = Some task"
      and n: "visit_deps taskMap (dependencies task) (s\<lparr>temp := insert taskId (temp s)\<rparr>) = None"
      by (auto simp: visit.simps split: option.splits)
    have "\<forall>b\<in>temp (s\<lparr>temp := insert taskId (temp s)\<rparr>). \<forall>d\<in>set (dependencies task).
        (b, d) \<in> (dep_edges taskMap)\<^sup>+"
    proof (intro ballI)
      fix b d assume b: "b \<in> temp (s\<lparr>temp := insert taskId (temp s)\<rparr>)"
        and d: "d \<in> set (dependencies task)"
      have e: "(taskId, d) \<in> dep_edges taskMap"
        using task d by (auto simp: dep_edges_def)
      show "(b, d) \<in> (dep_edges taskMap)\<^sup>+"
      proof (cases "b = taskId")
        case True
        with e show ?thesis by auto
      next
        case False
        with b 1(3) have "(b, taskId) \<in> (dep_edges taskMap)\<^sup>+" by auto
        then show ?thesis using e by (rule trancl.trancl_into_trancl)
      qed
    qed
    with 1(1)[OF nt nv task n] show ?thesis .
  qed
next
  case (2 taskMap s)
  then show ?case by simp
next
  case (3 taskMap depId rest s)
  show ?case
  proof (cases "visit taskMap depId s")
    case None
    with 3(1)[OF None] 3(4) show ?thesis by auto
  next
    case (Some s1)
    with 3(3) have r: "visit_deps taskMap rest s1 = None" by simp
    from visit_basic(1)[OF Some] have "temp s1 = temp s" by simp
    with 3(4) have "\<forall>b\<in>temp s1. \<forall>d\<in>set rest. (b, d) \<in> (dep_edges taskMap)\<^sup>+" by auto
    with 3(2)[OF Some r] show ?thesis .
  qed
qed

lemma visit_range:
  "visit tm x s = Some s' \<Longrightarrow> visited s' \<subseteq> visited s \<union> {x} \<union> Range (dep_edges tm)"
  "visit_deps tm ds s = Some s'' \<Longrightarrow> visited s'' \<subseteq> visited s \<union> set ds \<union> Range (dep_edges tm)"
proof (induction tm x s and tm ds s arbitrary: s' and s'' rule: visit_visit_deps.induct)
  case (1 taskMap taskId s)
  show ?case
  proof (cases "taskId \<in> visited s")
    case True
    with 1(2) show ?thesis by (auto simp: visit.simps split: if_splits)
  next
    case nv: False
    from 1(2) have nt: "taskId \<notin> temp s" by (auto simp: visit.simps split: if_splits)
    show ?thesis
    proof (cases "map_of taskMap taskId")
      case None
      with 1(2) nv nt show ?thesis
        by (auto simp: visit.simps)
    next
      case (Some task)
      with 1(2) nv nt obtain s2 where
        s2: "visit_deps taskMap (dependencies task) (s\<lparr>temp := insert taskId (temp s)\<rparr>) = Some s2"
        and s': "s' = s2\<lparr>temp := temp s2 - {taskId}, visited := insert taskId (visited s2),
                   order := order s2 @ [taskId]\<rparr>"
        by (auto simp: visit.simps split: option.splits)
      have "set (dependencies task) \<subseteq> Range (dep_edges taskMap)"
        using Some by (auto simp: dep_edges_def)
      with 1(1)[OF nt nv Some s2] s' show ?thesis by auto
    qed
  qed
next
  case (2 taskMap s)
  then show ?case by simp
next
  case (3 taskMap depId rest s)
  from 3(3) obtain s1 where s1: "visit taskMap depId s = Some s1"
    and r: "visit_deps taskMap rest s1 = Some s''"
    by (auto split: option.splits)
  from 3(1)[OF s1] 3(2)[OF s1 r] show ?case by auto
qed

subsection \<open>Maps built by a loop of \<open>Map.set\<close>\<close>

lemma map_of_foldl_update:
  "map_of (foldl (\<lambda>m t. AList.update (k t) (v t) m) al ts)
     = map_of (rev (map (\<lambda>t. (k t, v t)) ts) @ al)"
proof (induction ts arbitrary: al)
  case Nil
  show ?case by simp
next
  case (Cons t ts)
  show ?case
    by (simp add: Cons.IH update_conv' map_add_upd_left flip: fun_upd_def)
qed

lemma distinct_foldl_update:
  "distinct (map fst al) \<Longrightarrow> distinct (map fst (foldl (\<lambda>m t. AList.update (k t) (v t) m) al ts))"
  by (induction ts arbitrary: al) (simp_all add: distinct_update)

lemma keys_foldl_update:
  "fst ` set (foldl (\<lambda>m t. AList.update (k t) (v t) m) al ts) = fst ` set al \<union> k ` set ts"
  by (induction ts arbitrary: al) (auto simp: dom_update)

lemma taskMap_of_distinct: "distinct (map fst (taskMap_of tasks))"
  unfolding taskMap_of_def by (rule distinct_foldl_update) simp

lemma taskMap_of_keys: "fst ` set (taskMap_of tasks) = task_id ` set tasks"
  unfolding taskMap_of_def by (simp add: keys_foldl_update)

lemma taskMap_of_SomeD:
  "map_of (taskMap_of tasks) i = Some t \<Longrightarrow> t \<in> set tasks \<and> task_id t = i"
  unfolding taskMap_of_def map_of_foldl_update
  by (auto dest!: map_of_SomeD)

subsection \<open>The sort returns \<open>null\<close> exactly for a cyclic graph\<close>

lemma set_dependency_edges: "set (dependency_edges tasks) = dep_edges (taskMap_of tasks)"
  using taskMap_of_distinct[of tasks]
  by (auto simp: dependency_edges_def dep_edges_def)

lemma has_cycle_iff: "has_cycle tasks \<longleftrightarrow> (\<exists>a. (a, a) \<in> (dep_edges (taskMap_of tasks))\<^sup>+)"
proof
  assume "has_cycle tasks"
  then show "\<exists>a. (a, a) \<in> (dep_edges (taskMap_of tasks))\<^sup>+"
    by (auto simp: has_cycle_def set_dependency_edges)
next
  assume "\<exists>a. (a, a) \<in> (dep_edges (taskMap_of tasks))\<^sup>+"
  then obtain a where a: "(a, a) \<in> (dep_edges (taskMap_of tasks))\<^sup>+" ..
  then obtain b where "(a, b) \<in> dep_edges (taskMap_of tasks)"
    by (meson tranclD)
  then have "a \<in> set (map fst (dependency_edges tasks))"
    by (force simp: set_dependency_edges)
  with a show "has_cycle tasks"
    unfolding has_cycle_def set_dependency_edges by blast
qed

lemma sort_loop_Some:
  "sort_loop tm ts s = Some s' \<Longrightarrow> dfs_inv tm s \<Longrightarrow> temp s = {} \<Longrightarrow>
     dfs_inv tm s' \<and> temp s' = {} \<and> visited s \<subseteq> visited s' \<and> task_id ` set ts \<subseteq> visited s'
     \<and> visited s' \<subseteq> visited s \<union> task_id ` set ts \<union> Range (dep_edges tm)"
proof (induction ts arbitrary: s)
  case Nil
  then show ?case by simp
next
  case (Cons t ts)
  show ?case
  proof (cases "task_id t \<in> visited s")
    case True
    with Cons.prems have "sort_loop tm ts s = Some s'" by simp
    from Cons.IH[OF this Cons.prems(2,3)] True show ?thesis by auto
  next
    case False
    with Cons.prems obtain s1 where s1: "visit tm (task_id t) s = Some s1"
      and r: "sort_loop tm ts s1 = Some s'"
      by (auto split: option.splits)
    from visit_basic(1)[OF s1] Cons.prems(3)
    have b: "temp s1 = {}" "task_id t \<in> visited s1" "visited s \<subseteq> visited s1" by auto
    have i: "dfs_inv tm s1" using visit_inv(1)[OF s1 Cons.prems(2)] .
    from Cons.IH[OF r i b(1)] b visit_range(1)[OF s1] show ?thesis by auto
  qed
qed

lemma sort_loop_None:
  "sort_loop tm ts s = None \<Longrightarrow> temp s = {} \<Longrightarrow> \<exists>a. (a, a) \<in> (dep_edges tm)\<^sup>+"
proof (induction ts arbitrary: s)
  case Nil
  then show ?case by simp
next
  case (Cons t ts)
  show ?case
  proof (cases "task_id t \<in> visited s")
    case True
    with Cons show ?thesis by simp
  next
    case False
    show ?thesis
    proof (cases "visit tm (task_id t) s")
      case None
      with visit_None_cycle(1)[OF None] Cons.prems(2) show ?thesis by simp
    next
      case (Some s1)
      with False Cons.prems have r: "sort_loop tm ts s1 = None" by simp
      from visit_basic(1)[OF Some] Cons.prems(2) have "temp s1 = {}" by simp
      with Cons.IH[OF r] show ?thesis .
    qed
  qed
qed

lemma dfs_inv_init: "dfs_inv tm \<lparr>visited = {}, temp = {}, order = []\<rparr>"
  by (simp add: dfs_inv_def deps_before_Nil)

lemma topologicalSort_Some:
  assumes "topologicalSort tasks = Some sortedIds"
  shows "distinct sortedIds"
    and "deps_before (deps_in (taskMap_of tasks)) sortedIds"
    and "task_id ` set tasks \<subseteq> set sortedIds"
    and "set sortedIds \<subseteq> task_id ` set tasks \<union> Range (dep_edges (taskMap_of tasks))"
    and "\<not> has_cycle tasks"
proof -
  let ?tm = "taskMap_of tasks"
  let ?s0 = "\<lparr>visited = {}, temp = {}, order = []\<rparr>"
  from assms obtain s' where s': "sort_loop ?tm tasks ?s0 = Some s'"
    and o: "sortedIds = order s'"
    by (auto simp: topologicalSort_def)
  from sort_loop_Some[OF s' dfs_inv_init] have
    inv: "dfs_inv ?tm s'" and ids: "task_id ` set tasks \<subseteq> visited s'"
    and rng: "visited s' \<subseteq> task_id ` set tasks \<union> Range (dep_edges ?tm)"
    by auto
  from inv have v: "visited s' = set (order s')" by (simp add: dfs_inv_def)
  show "distinct sortedIds" "deps_before (deps_in ?tm) sortedIds"
    using inv o by (simp_all add: dfs_inv_def)
  show "task_id ` set tasks \<subseteq> set sortedIds" using ids v o by simp
  show "set sortedIds \<subseteq> task_id ` set tasks \<union> Range (dep_edges ?tm)"
    using rng v o by simp
  show "\<not> has_cycle tasks"
  proof
    assume "has_cycle tasks"
    then obtain a where a: "(a, a) \<in> (dep_edges ?tm)\<^sup>+"
      by (auto simp: has_cycle_iff)
    then obtain b where "(a, b) \<in> dep_edges ?tm" by (meson tranclD)
    then obtain t where "map_of ?tm a = Some t" by (auto simp: dep_edges_def)
    then have "a \<in> task_id ` set tasks" by (auto dest: taskMap_of_SomeD)
    with ids have "a \<in> visited s'" by auto
    with inv a show False unfolding dfs_inv_def by blast
  qed
qed

lemma topologicalSort_None_iff: "topologicalSort tasks = None \<longleftrightarrow> has_cycle tasks"
proof
  assume "topologicalSort tasks = None"
  then have "sort_loop (taskMap_of tasks) tasks \<lparr>visited = {}, temp = {}, order = []\<rparr> = None"
    by (simp add: topologicalSort_def)
  from sort_loop_None[OF this] show "has_cycle tasks"
    by (simp add: has_cycle_iff)
next
  assume c: "has_cycle tasks"
  show "topologicalSort tasks = None"
  proof (cases "topologicalSort tasks")
    case None
    then show ?thesis .
  next
    case (Some ids)
    from topologicalSort_Some(5)[OF Some] c show ?thesis by simp
  qed
qed

subsection \<open>The sorted ids as processing order of the passes\<close>

lemma deps_before_member:
  assumes "deps_before dps xs" "s \<in> set xs"
  shows "set (dps s) \<subseteq> set xs"
proof -
  from assms(2) obtain ys zs where "xs = ys @ s # zs" by (auto dest: split_list)
  with assms(1) show ?thesis unfolding deps_before_def by fastforce
qed

lemma ready_forward:
  "deps_before dps (pre @ xs) \<Longrightarrow> distinct (pre @ xs) \<Longrightarrow> ready dps xs"
proof (induction xs arbitrary: pre)
  case Nil
  show ?case by simp
next
  case (Cons x zs)
  from Cons.prems(1) have "set (dps x) \<subseteq> set pre"
    unfolding deps_before_def by blast
  moreover from Cons.prems(2) have "set pre \<inter> insert x (set zs) = {}" by auto
  moreover have "ready dps zs"
    using Cons.IH[of "pre @ [x]"] Cons.prems by simp
  ultimately show ?case by auto
qed

lemma ready_backward:
  assumes "deps_before dps xs" "distinct xs"
    and "\<And>x s. s \<in> set (sps x) \<Longrightarrow> x \<in> set (dps s)"
  shows "ready sps (rev xs)"
  using assms(1,2)
proof (induction xs rule: rev_induct)
  case Nil
  show ?case by simp
next
  case (snoc x xs)
  from snoc.prems have db: "deps_before dps xs" and sub: "set (dps x) \<subseteq> set xs"
    and nx: "x \<notin> set xs" and d: "distinct xs"
    by (simp_all add: deps_before_snoc)
  have "set (sps x) \<inter> insert x (set xs) = {}"
  proof (rule ccontr)
    assume "set (sps x) \<inter> insert x (set xs) \<noteq> {}"
    then obtain s where s: "s \<in> set (sps x)" and m: "s = x \<or> s \<in> set xs" by auto
    from assms(3)[OF s] have xs: "x \<in> set (dps s)" .
    from m show False
    proof
      assume "s = x"
      with xs sub nx show False by auto
    next
      assume "s \<in> set xs"
      from deps_before_member[OF db this] xs nx show False by auto
    qed
  qed
  with snoc.IH[OF db d] show ?case by simp
qed

section \<open>Correctness of the passes\<close>

subsection \<open>The successors map\<close>

lemma add_successor_fold:
  "map_option set (map_of (foldl (add_successor tid) m ds) i)
     = map_option (\<lambda>S. if i \<in> set ds then insert tid S else S) (map_option set (map_of m i))"
proof (induction ds arbitrary: m)
  case Nil
  show ?case by (simp add: option.map_ident option.map_comp comp_def)
next
  case (Cons d ds)
  have step: "map_option set (map_of (add_successor tid m d) i)
      = map_option (\<lambda>S. if i = d then insert tid S else S) (map_option set (map_of m i))"
    by (cases "map_of m d"; cases "map_of m i")
       (auto simp: add_successor_def update_conv')
  show ?case
    by (cases "map_of m i") (auto simp: Cons.IH step option.map_comp comp_def)
qed

lemma successors_fold:
  "map_option set (map_of
      (foldl (\<lambda>m t. foldl (add_successor (task_id t)) m (dependencies t)) m ts) i)
     = map_option (\<lambda>S. S \<union> {task_id t |t. t \<in> set ts \<and> i \<in> set (dependencies t)})
         (map_option set (map_of m i))"
proof (induction ts arbitrary: m)
  case Nil
  show ?case by (simp add: option.map_ident option.map_comp comp_def)
next
  case (Cons t ts)
  show ?case
    by (cases "map_of m i") (auto simp: Cons.IH add_successor_fold option.map_comp comp_def)
qed

lemma successors_init:
  "map_of (foldl (\<lambda>m t. AList.update (task_id t) ([]::string list) m) [] tasks) i
     = (if i \<in> task_id ` set tasks then Some [] else None)"
proof (cases "i \<in> task_id ` set tasks")
  case True
  then obtain v where "map_of (rev (map (\<lambda>t. (task_id t, []::string list)) tasks)) i = Some v"
    by (cases "map_of (rev (map (\<lambda>t. (task_id t, []::string list)) tasks)) i")
       (force simp: map_of_eq_None_iff image_image)+
  moreover from this have "v = []" by (auto dest!: map_of_SomeD)
  ultimately show ?thesis using True by (simp add: map_of_foldl_update)
next
  case False
  then show ?thesis
    by (simp add: map_of_foldl_update map_of_eq_None_iff image_image)
qed

lemma successorsMap_of_spec:
  "map_option set (map_of (successorsMap_of tasks) i)
     = (if i \<in> task_id ` set tasks
        then Some {task_id t |t. t \<in> set tasks \<and> i \<in> set (dependencies t)} else None)"
  unfolding successorsMap_of_def successors_fold successors_init by simp

subsection \<open>Forward pass\<close>

lemma maxPredecessorEF_cong:
  assumes "\<And>d. d \<in> set ds \<Longrightarrow>
      map_option earlyFinish (map_of nm d) = map_option earlyFinish (map_of nm' d)"
  shows "maxPredecessorEF nm ds = maxPredecessorEF nm' ds"
proof -
  have "foldl (\<lambda>m depId. case map_of nm depId of None \<Rightarrow> m
                          | Some depNode \<Rightarrow> max m (earlyFinish depNode)) a ds
      = foldl (\<lambda>m depId. case map_of nm' depId of None \<Rightarrow> m
                          | Some depNode \<Rightarrow> max m (earlyFinish depNode)) a ds" for a
    using assms
  proof (induction ds arbitrary: a)
    case Nil
    show ?case by simp
  next
    case (Cons d ds)
    from Cons.prems[of d] have
      "(case map_of nm d of None \<Rightarrow> a | Some depNode \<Rightarrow> max a (earlyFinish depNode))
        = (case map_of nm' d of None \<Rightarrow> a | Some depNode \<Rightarrow> max a (earlyFinish depNode))"
      by (cases "map_of nm d"; cases "map_of nm' d") auto
    with Cons.IH Cons.prems show ?case by simp
  qed
  then show ?thesis by (simp add: maxPredecessorEF_def)
qed

lemma forward_pass_keys:
  "forward_pass ids nm = Inr nm' \<Longrightarrow> map fst nm' = map fst nm"
proof (induction ids arbitrary: nm)
  case Nil
  then show ?case by simp
next
  case (Cons i ids)
  from Cons.prems obtain node where n: "map_of nm i = Some node"
    and r: "forward_pass ids (AList.update i (forward_node nm node) nm) = Inr nm'"
    by (auto split: option.splits)
  from n have "i \<in> set (map fst nm)" by (auto dest: map_of_SomeD intro: rev_image_eqI)
  with Cons.IH[OF r] show ?case by (simp add: update_keys)
qed

lemma forward_pass_other:
  "forward_pass ids nm = Inr nm' \<Longrightarrow> i \<notin> set ids \<Longrightarrow> map_of nm' i = map_of nm i"
proof (induction ids arbitrary: nm)
  case Nil
  then show ?case by simp
next
  case (Cons j ids)
  from Cons.prems obtain node where n: "map_of nm j = Some node"
    and r: "forward_pass ids (AList.update j (forward_node nm node) nm) = Inr nm'"
    by (auto split: option.splits)
  from Cons.IH[OF r] Cons.prems(2) show ?case by (simp add: update_conv')
qed

lemma forward_pass_static:
  "forward_pass ids nm = Inr nm' \<Longrightarrow> map_of nm' i = Some n' \<Longrightarrow>
     \<exists>n. map_of nm i = Some n \<and> n' = n\<lparr>earlyStart := earlyStart n', earlyFinish := earlyFinish n'\<rparr>"
proof (induction ids arbitrary: nm)
  case Nil
  then show ?case by simp
next
  case (Cons j ids)
  from Cons.prems obtain node where n: "map_of nm j = Some node"
    and r: "forward_pass ids (AList.update j (forward_node nm node) nm) = Inr nm'"
    by (auto split: option.splits)
  from Cons.IH[OF r Cons.prems(2)] obtain n1 where
    n1: "map_of (AList.update j (forward_node nm node) nm) i = Some n1"
    and e: "n' = n1\<lparr>earlyStart := earlyStart n', earlyFinish := earlyFinish n'\<rparr>"
    by blast
  show ?case
  proof (cases "i = j")
    case True
    with n1 have "n1 = forward_node nm node" by (simp add: update_conv')
    with e have "n' = node\<lparr>earlyStart := earlyStart n', earlyFinish := earlyFinish n'\<rparr>"
      by (simp add: forward_node_def)
    with n True show ?thesis by simp
  next
    case False
    with n1 e show ?thesis by (simp add: update_conv')
  qed
qed

lemma forward_pass_done:
  assumes "forward_pass ids nm = Inr nm'" "ready dps ids" "distinct ids"
    and "\<And>x n. map_of nm x = Some n \<Longrightarrow> dependencies n = dps x"
    and "i \<in> set ids" "map_of nm i = Some n"
  shows "map_of nm' i = Some (forward_node nm' n)"
  using assms
proof (induction ids arbitrary: nm n)
  case Nil
  then show ?case by simp
next
  case (Cons j ids)
  from Cons.prems(1) obtain node where n: "map_of nm j = Some node"
    and r: "forward_pass ids (AList.update j (forward_node nm node) nm) = Inr nm'"
    by (auto split: option.splits)
  let ?nm1 = "AList.update j (forward_node nm node) nm"
  have rd: "ready dps ids" and dj: "set (dps j) \<inter> insert j (set ids) = {}"
    and di: "distinct ids" and jn: "j \<notin> set ids"
    using Cons.prems(2,3) by auto
  have deps1: "dependencies m = dps x" if "map_of ?nm1 x = Some m" for x m
    using that n Cons.prems(4)[of x] Cons.prems(4)[of j]
    by (cases "x = j") (auto simp: update_conv' forward_node_def)
  show ?case
  proof (cases "i = j")
    case True
    with n Cons.prems(6) have nn: "node = n" by simp
    have "map_of nm' i = map_of ?nm1 i"
      using forward_pass_other[OF r] jn True by simp
    also have "\<dots> = Some (forward_node nm n)" using True nn by (simp add: update_conv')
    also have "forward_node nm n = forward_node nm' n"
    proof -
      have "maxPredecessorEF nm (dependencies n) = maxPredecessorEF nm' (dependencies n)"
      proof (rule maxPredecessorEF_cong)
        fix d assume "d \<in> set (dependencies n)"
        with Cons.prems(4)[OF Cons.prems(6)] True dj have "d \<noteq> j" "d \<notin> set ids" by auto
        then have "map_of nm' d = map_of nm d"
          using forward_pass_other[OF r, of d] by (simp add: update_conv')
        then show "map_option earlyFinish (map_of nm d) = map_option earlyFinish (map_of nm' d)"
          by simp
      qed
      then show ?thesis by (simp add: forward_node_def)
    qed
    finally show ?thesis .
  next
    case False
    with Cons.prems(5) have "i \<in> set ids" by simp
    moreover from False Cons.prems(6) have "map_of ?nm1 i = Some n" by (simp add: update_conv')
    ultimately show ?thesis
      using Cons.IH[OF r rd di deps1] by blast
  qed
qed

lemma forward_pass_total:
  "set ids \<subseteq> fst ` set nm \<Longrightarrow> \<exists>nm'. forward_pass ids nm = Inr nm'"
proof (induction ids arbitrary: nm)
  case Nil
  show ?case by simp
next
  case (Cons i ids)
  from Cons.prems obtain node where n: "map_of nm i = Some node"
    by (cases "map_of nm i") (auto simp: map_of_eq_None_iff)
  have "set ids \<subseteq> fst ` set (AList.update i (forward_node nm node) nm)"
    using Cons.prems by (auto simp: dom_update)
  from Cons.IH[OF this] n show ?case by simp
qed

lemma forward_pass_Inl:
  "forward_pass ids nm = Inl e \<Longrightarrow> e = TypeError \<and> \<not> set ids \<subseteq> fst ` set nm"
proof (induction ids arbitrary: nm)
  case Nil
  then show ?case by simp
next
  case (Cons i ids)
  show ?case
  proof (cases "map_of nm i")
    case None
    with Cons.prems show ?thesis by (auto simp: map_of_eq_None_iff)
  next
    case (Some node)
    with Cons.prems have "forward_pass ids (AList.update i (forward_node nm node) nm) = Inl e"
      by simp
    from Cons.IH[OF this] show ?thesis by (auto simp: dom_update)
  qed
qed

subsection \<open>Backward pass\<close>

lemma minSuccessorLS_cong:
  assumes "\<And>d. d \<in> set ss \<Longrightarrow>
      map_option lateStart (map_of nm d) = map_option lateStart (map_of nm' d)"
  shows "minSuccessorLS nm ss = minSuccessorLS nm' ss"
proof -
  have "foldl (\<lambda>m succId. case map_of nm succId of None \<Rightarrow> m
                | Some succNode \<Rightarrow> (case m of None \<Rightarrow> Some (lateStart succNode)
                                     | Some l \<Rightarrow> Some (min l (lateStart succNode)))) a ss
      = foldl (\<lambda>m succId. case map_of nm' succId of None \<Rightarrow> m
                | Some succNode \<Rightarrow> (case m of None \<Rightarrow> Some (lateStart succNode)
                                     | Some l \<Rightarrow> Some (min l (lateStart succNode)))) a ss" for a
    using assms
  proof (induction ss arbitrary: a)
    case Nil
    show ?case by simp
  next
    case (Cons d ds)
    from Cons.prems[of d] have
      "(case map_of nm d of None \<Rightarrow> a
        | Some succNode \<Rightarrow> (case a of None \<Rightarrow> Some (lateStart succNode)
                             | Some l \<Rightarrow> Some (min l (lateStart succNode))))
        = (case map_of nm' d of None \<Rightarrow> a
        | Some succNode \<Rightarrow> (case a of None \<Rightarrow> Some (lateStart succNode)
                             | Some l \<Rightarrow> Some (min l (lateStart succNode))))"
      by (cases "map_of nm d"; cases "map_of nm' d"; cases a) simp_all
    with Cons.IH Cons.prems show ?case by simp
  qed
  then show ?thesis by (simp add: minSuccessorLS_def)
qed

lemma backward_node_cong:
  assumes "\<And>d. d \<in> set (successors_in sm i) \<Longrightarrow>
      map_option lateStart (map_of nm d) = map_option lateStart (map_of nm' d)"
  shows "backward_node pd sm nm i n = backward_node pd sm nm' i n"
proof -
  have "minSuccessorLS nm (successors_in sm i) = minSuccessorLS nm' (successors_in sm i)"
    using assms by (rule minSuccessorLS_cong)
  then show ?thesis
    by (simp add: backward_node_def Let_def)
qed

lemma backward_node_Inr:
  "backward_node pd sm nm i n = Inr n' \<longleftrightarrow>
     (\<exists>lf. (if successors_in sm i = [] then Some pd
            else minSuccessorLS nm (successors_in sm i)) = Some lf \<and>
        n' = n\<lparr>lateFinish := lf, lateStart := lf - duration n,
               slack := lf - duration n - earlyStart n,
               isCritical := \<bar>lf - duration n - earlyStart n\<bar> < 1 / 100\<rparr>)"
  unfolding backward_node_def Let_def
  by (cases "if successors_in sm i = [] then Some pd
             else minSuccessorLS nm (successors_in sm i)") auto

lemma backward_node_fields:
  "backward_node pd sm nm i n = Inr n' \<Longrightarrow>
     n' = n\<lparr>lateFinish := lateFinish n', lateStart := lateStart n', slack := slack n',
             isCritical := isCritical n'\<rparr>"
  unfolding backward_node_Inr by auto

lemma backward_pass_keys:
  "backward_pass pd sm ids nm = Inr nm' \<Longrightarrow> map fst nm' = map fst nm"
proof (induction ids arbitrary: nm)
  case Nil
  then show ?case by simp
next
  case (Cons i ids)
  from Cons.prems obtain node node' where n: "map_of nm i = Some node"
    and r: "backward_pass pd sm ids (AList.update i node' nm) = Inr nm'"
    by (auto split: option.splits sum.splits)
  from n have "i \<in> set (map fst nm)" by (auto dest: map_of_SomeD intro: rev_image_eqI)
  with Cons.IH[OF r] show ?case by (simp add: update_keys)
qed

lemma backward_pass_other:
  "backward_pass pd sm ids nm = Inr nm' \<Longrightarrow> i \<notin> set ids \<Longrightarrow> map_of nm' i = map_of nm i"
proof (induction ids arbitrary: nm)
  case Nil
  then show ?case by simp
next
  case (Cons j ids)
  from Cons.prems obtain node node' where n: "map_of nm j = Some node"
    and r: "backward_pass pd sm ids (AList.update j node' nm) = Inr nm'"
    by (auto split: option.splits sum.splits)
  from Cons.IH[OF r] Cons.prems(2) show ?case by (simp add: update_conv')
qed

lemma backward_pass_static:
  "backward_pass pd sm ids nm = Inr nm' \<Longrightarrow> map_of nm' i = Some n' \<Longrightarrow>
     \<exists>n. map_of nm i = Some n \<and>
         n' = n\<lparr>lateFinish := lateFinish n', lateStart := lateStart n', slack := slack n',
                 isCritical := isCritical n'\<rparr>"
proof (induction ids arbitrary: nm)
  case Nil
  then show ?case by simp
next
  case (Cons j ids)
  from Cons.prems obtain node node' where n: "map_of nm j = Some node"
    and b: "backward_node pd sm nm j node = Inr node'"
    and r: "backward_pass pd sm ids (AList.update j node' nm) = Inr nm'"
    by (auto split: option.splits sum.splits)
  from Cons.IH[OF r Cons.prems(2)] obtain n1 where
    n1: "map_of (AList.update j node' nm) i = Some n1"
    and e: "n' = n1\<lparr>lateFinish := lateFinish n', lateStart := lateStart n', slack := slack n',
                 isCritical := isCritical n'\<rparr>"
    by blast
  show ?case
  proof (cases "i = j")
    case True
    with n1 have "n1 = node'" by (simp add: update_conv')
    with backward_node_fields[OF b] obtain a b c d where
      "n1 = node\<lparr>lateFinish := a, lateStart := b, slack := c, isCritical := d\<rparr>"
      by blast
    with e
    have "n' = node\<lparr>lateFinish := lateFinish n', lateStart := lateStart n', slack := slack n',
                 isCritical := isCritical n'\<rparr>"
      by simp
    with n True show ?thesis by simp
  next
    case False
    with n1 e show ?thesis by (simp add: update_conv')
  qed
qed

lemma backward_pass_done:
  assumes "backward_pass pd sm ids nm = Inr nm'" "ready (successors_in sm) ids" "distinct ids"
    and "i \<in> set ids" "map_of nm i = Some n"
  shows "\<exists>n'. backward_node pd sm nm' i n = Inr n' \<and> map_of nm' i = Some n'"
  using assms
proof (induction ids arbitrary: nm n)
  case Nil
  then show ?case by simp
next
  case (Cons j ids)
  from Cons.prems(1) obtain node node' where n: "map_of nm j = Some node"
    and b: "backward_node pd sm nm j node = Inr node'"
    and r: "backward_pass pd sm ids (AList.update j node' nm) = Inr nm'"
    by (auto split: option.splits sum.splits)
  let ?nm1 = "AList.update j node' nm"
  have rd: "ready (successors_in sm) ids"
    and dj: "set (successors_in sm j) \<inter> insert j (set ids) = {}"
    and di: "distinct ids" and jn: "j \<notin> set ids"
    using Cons.prems(2,3) by auto
  show ?case
  proof (cases "i = j")
    case True
    with n Cons.prems(5) have nn: "node = n" by simp
    have "map_of nm' i = map_of ?nm1 i"
      using backward_pass_other[OF r] jn True by simp
    then have m: "map_of nm' i = Some node'" using True by (simp add: update_conv')
    have "backward_node pd sm nm i n = backward_node pd sm nm' i n"
    proof (rule backward_node_cong)
      fix d assume "d \<in> set (successors_in sm i)"
      with True dj have "d \<noteq> j" "d \<notin> set ids" by auto
      then have "map_of nm' d = map_of nm d"
        using backward_pass_other[OF r, of d] by (simp add: update_conv')
      then show "map_option lateStart (map_of nm d) = map_option lateStart (map_of nm' d)"
        by simp
    qed
    with b True nn m show ?thesis by simp
  next
    case False
    with Cons.prems(4) have "i \<in> set ids" by simp
    moreover from False Cons.prems(5) have "map_of ?nm1 i = Some n" by (simp add: update_conv')
    ultimately show ?thesis
      using Cons.IH[OF r rd di] by blast
  qed
qed

lemma minSuccessorLS_Some:
  assumes "set ss \<inter> fst ` set nm \<noteq> {}"
  shows "\<exists>l. minSuccessorLS nm ss = Some l"
proof -
  have "\<exists>l. foldl (\<lambda>m succId. case map_of nm succId of None \<Rightarrow> m
                | Some succNode \<Rightarrow> (case m of None \<Rightarrow> Some (lateStart succNode)
                                     | Some l \<Rightarrow> Some (min l (lateStart succNode)))) a ss = Some l"
    if "a \<noteq> None \<or> set ss \<inter> fst ` set nm \<noteq> {}" for a
    using that
  proof (induction ss arbitrary: a)
    case Nil
    then show ?case by auto
  next
    case (Cons d ds)
    show ?case
    proof (cases "map_of nm d")
      case None
      then have "d \<notin> fst ` set nm" by (simp add: map_of_eq_None_iff)
      with Cons.prems have "a \<noteq> None \<or> set ds \<inter> fst ` set nm \<noteq> {}" by auto
      from Cons.IH[OF this] None show ?thesis by simp
    next
      case (Some sn)
      have "(case a of None \<Rightarrow> Some (lateStart sn) | Some l \<Rightarrow> Some (min l (lateStart sn)))
          \<noteq> None \<or> set ds \<inter> fst ` set nm \<noteq> {}"
        by (cases a) auto
      from Cons.IH[OF this] Some show ?thesis by simp
    qed
  qed
  with assms show ?thesis by (simp add: minSuccessorLS_def)
qed

lemma backward_pass_total:
  assumes "set ids \<subseteq> fst ` set nm"
    and "\<And>i. i \<in> set ids \<Longrightarrow> set (successors_in sm i) \<subseteq> fst ` set nm"
  shows "\<exists>nm'. backward_pass pd sm ids nm = Inr nm'"
  using assms
proof (induction ids arbitrary: nm)
  case Nil
  show ?case by simp
next
  case (Cons i ids)
  from Cons.prems(1) obtain node where n: "map_of nm i = Some node"
    by (cases "map_of nm i") (auto simp: map_of_eq_None_iff)
  have "\<exists>node'. backward_node pd sm nm i node = Inr node'"
  proof (cases "successors_in sm i = []")
    case True
    then show ?thesis by (simp add: backward_node_Inr)
  next
    case False
    then have "set (successors_in sm i) \<inter> fst ` set nm \<noteq> {}"
      using Cons.prems(2)[of i] by (cases "successors_in sm i") auto
    from minSuccessorLS_Some[OF this] False show ?thesis
      by (auto simp: backward_node_Inr)
  qed
  then obtain node' where b: "backward_node pd sm nm i node = Inr node'" ..
  have k: "fst ` set (AList.update i node' nm) = fst ` set nm"
    using Cons.prems(1) by (auto simp: dom_update)
  have "\<exists>nm'. backward_pass pd sm ids (AList.update i node' nm) = Inr nm'"
    using Cons.prems by (intro Cons.IH) (auto simp: k)
  with n b show ?case by simp
qed

subsection \<open>The initial node map\<close>

lemma initial_nodeMap_distinct: "distinct (map fst (initial_nodeMap tasks))"
  unfolding initial_nodeMap_def by (rule distinct_foldl_update) simp

lemma initial_nodeMap_keys: "fst ` set (initial_nodeMap tasks) = task_id ` set tasks"
  unfolding initial_nodeMap_def by (simp add: keys_foldl_update)

lemma initial_nodeMap_map_of:
  "map_of (initial_nodeMap tasks) i = map_option initial_node (map_of (taskMap_of tasks) i)"
proof -
  have "map (\<lambda>t. (task_id t, initial_node t)) tasks
      = map (\<lambda>(k, t). (k, initial_node t)) (map (\<lambda>t. (task_id t, t)) tasks)"
    by simp
  then have "rev (map (\<lambda>t. (task_id t, initial_node t)) tasks)
      = map (\<lambda>(k, t). (k, initial_node t)) (rev (map (\<lambda>t. (task_id t, t)) tasks))"
    by (simp only: rev_map)
  then show ?thesis
    unfolding initial_nodeMap_def taskMap_of_def map_of_foldl_update
    by (simp only: append_Nil2 map_of_map comp_def)
qed

lemma initial_nodeMap_SomeD:
  assumes "map_of (initial_nodeMap tasks) i = Some n"
  shows "\<exists>t. map_of (taskMap_of tasks) i = Some t \<and> n = initial_node t
            \<and> t \<in> set tasks \<and> task_id t = i"
  using assms taskMap_of_SomeD[of tasks i]
  by (auto simp: initial_nodeMap_map_of)

lemma taskMap_of_distinct_ids:
  assumes "distinct (map task_id tasks)" "t \<in> set tasks"
  shows "map_of (taskMap_of tasks) (task_id t) = Some t"
proof -
  have "map fst (rev (map (\<lambda>t. (task_id t, t)) tasks)) = rev (map task_id tasks)"
    by (simp add: rev_map comp_def)
  then have d: "distinct (map fst (rev (map (\<lambda>t. (task_id t, t)) tasks)))"
    using assms(1) by simp
  have "(task_id t, t) \<in> set (rev (map (\<lambda>t. (task_id t, t)) tasks))"
    using assms(2) by auto
  then have "map_of (rev (map (\<lambda>t. (task_id t, t)) tasks)) (task_id t) = Some t"
    using map_of_eq_Some_iff[OF d] by blast
  then show ?thesis
    by (simp add: taskMap_of_def map_of_foldl_update)
qed

lemma dependency_edges_distinct:
  assumes "distinct (map task_id tasks)"
  shows "set (dependency_edges tasks)
    = {(task_id t, d) |t d. t \<in> set tasks \<and> d \<in> set (dependencies t)}"
proof (intro set_eqI iffI)
  fix e assume "e \<in> set (dependency_edges tasks)"
  then obtain a b t where "e = (a, b)" "map_of (taskMap_of tasks) a = Some t"
    "b \<in> set (dependencies t)"
    by (auto simp: set_dependency_edges dep_edges_def)
  with taskMap_of_SomeD[of tasks a t]
  show "e \<in> {(task_id t, d) |t d. t \<in> set tasks \<and> d \<in> set (dependencies t)}"
    by auto
next
  fix e assume "e \<in> {(task_id t, d) |t d. t \<in> set tasks \<and> d \<in> set (dependencies t)}"
  then obtain t d where "e = (task_id t, d)" "t \<in> set tasks" "d \<in> set (dependencies t)"
    by auto
  with taskMap_of_distinct_ids[OF assms, of t]
  show "e \<in> set (dependency_edges tasks)"
    by (auto simp: set_dependency_edges dep_edges_def)
qed

subsection \<open>What each pass establishes for a node it has processed\<close>

lemma forward_pass_local:
  "forward_pass ids nm = Inr nm' \<Longrightarrow> i \<in> set ids \<Longrightarrow> map_of nm' i = Some n
     \<Longrightarrow> earlyFinish n = earlyStart n + duration n"
proof (induction ids arbitrary: nm)
  case Nil
  then show ?case by simp
next
  case (Cons j ids)
  from Cons.prems(1) obtain node where n: "map_of nm j = Some node"
    and r: "forward_pass ids (AList.update j (forward_node nm node) nm) = Inr nm'"
    by (auto split: option.splits)
  show ?case
  proof (cases "i \<in> set ids")
    case True
    from Cons.IH[OF r True Cons.prems(3)] show ?thesis .
  next
    case False
    with Cons.prems(2) have "i = j" by simp
    with forward_pass_other[OF r False] Cons.prems(3)
    have "n = forward_node nm node" by (simp add: update_conv')
    then show ?thesis by (simp add: forward_node_def)
  qed
qed

lemma backward_pass_local:
  "backward_pass pd sm ids nm = Inr nm' \<Longrightarrow> i \<in> set ids \<Longrightarrow> map_of nm' i = Some n
     \<Longrightarrow> lateStart n = lateFinish n - duration n \<and> slack n = lateStart n - earlyStart n
         \<and> isCritical n = (\<bar>slack n\<bar> < 1 / 100)"
proof (induction ids arbitrary: nm)
  case Nil
  then show ?case by simp
next
  case (Cons j ids)
  from Cons.prems(1) obtain node node' where n: "map_of nm j = Some node"
    and b: "backward_node pd sm nm j node = Inr node'"
    and r: "backward_pass pd sm ids (AList.update j node' nm) = Inr nm'"
    by (auto split: option.splits sum.splits)
  show ?case
  proof (cases "i \<in> set ids")
    case True
    from Cons.IH[OF r True Cons.prems(3)] show ?thesis .
  next
    case False
    with Cons.prems(2) have "i = j" by simp
    with backward_pass_other[OF r False] Cons.prems(3)
    have "n = node'" by (simp add: update_conv')
    with b show ?thesis by (auto simp: backward_node_Inr)
  qed
qed

lemma forward_pass_Inr_keys:
  "forward_pass ids nm = Inr nm' \<Longrightarrow> set ids \<subseteq> fst ` set nm"
proof (induction ids arbitrary: nm)
  case Nil
  show ?case by simp
next
  case (Cons j ids)
  from Cons.prems(1) obtain node where n: "map_of nm j = Some node"
    and r: "forward_pass ids (AList.update j (forward_node nm node) nm) = Inr nm'"
    by (auto split: option.splits)
  from n have "j \<in> fst ` set nm" by (auto dest: map_of_SomeD intro: rev_image_eqI)
  with Cons.IH[OF r] show ?case by (auto simp: dom_update)
qed

subsection \<open>The runs of calculateCPM\<close>

lemma calculateCPM_cycle:
  "has_cycle tasks \<Longrightarrow>
     calculateCPM tasks = Inr ([''Cycle detected in graph!''], map snd (initial_nodeMap tasks))"
  by (simp add: calculateCPM_def topologicalSort_None_iff[symmetric])

lemma successors_in_ids:
  "set (successors_in (successorsMap_of tasks) i) \<subseteq> task_id ` set tasks"
  using successorsMap_of_spec[of tasks i]
  by (cases "map_of (successorsMap_of tasks) i")
     (auto simp: successors_in_def split: if_splits)

lemma backward_after_forward:
  assumes "forward_pass sortedIds (initial_nodeMap tasks) = Inr nm1"
  shows "\<exists>nm2. backward_pass pd (successorsMap_of tasks) (rev sortedIds) nm1 = Inr nm2"
proof -
  have k: "fst ` set nm1 = task_id ` set tasks"
    using forward_pass_keys[OF assms] initial_nodeMap_keys[of tasks]
    by (metis set_map)
  have "set (rev sortedIds) \<subseteq> fst ` set nm1"
    using forward_pass_Inr_keys[OF assms] initial_nodeMap_keys[of tasks] k by simp
  then show ?thesis
    by (rule backward_pass_total) (simp add: k successors_in_ids)
qed

lemma calculateCPM_acyclic:
  assumes "\<not> has_cycle tasks"
  shows "calculateCPM tasks = Inr (out, nodes) \<longleftrightarrow>
     (\<exists>sortedIds nm1 nm2. topologicalSort tasks = Some sortedIds
        \<and> forward_pass sortedIds (initial_nodeMap tasks) = Inr nm1
        \<and> backward_pass (projectDuration_of nm1) (successorsMap_of tasks) (rev sortedIds) nm1
            = Inr nm2
        \<and> out = [] \<and> nodes = map snd nm2)"
proof -
  from assms obtain sortedIds where s: "topologicalSort tasks = Some sortedIds"
    by (cases "topologicalSort tasks") (auto simp: topologicalSort_None_iff)
  show ?thesis
    unfolding calculateCPM_def Let_def s
    by (auto split: sum.splits)
qed

lemma calculateCPM_Inl:
  assumes "calculateCPM tasks = Inl e"
  shows "e = TypeError"
proof -
  from assms obtain sortedIds where s: "topologicalSort tasks = Some sortedIds"
    by (cases "topologicalSort tasks") (auto simp: calculateCPM_def)
  show ?thesis
  proof (cases "forward_pass sortedIds (initial_nodeMap tasks)")
    case (Inl e')
    with assms s have "e = e'" by (simp add: calculateCPM_def)
    with forward_pass_Inl[OF Inl] show ?thesis by simp
  next
    case (Inr nm1)
    from backward_after_forward[OF Inr, of "projectDuration_of nm1"] Inr assms s
    show ?thesis by (auto simp: calculateCPM_def)
  qed
qed

lemma deps_resolve_iff:
  "deps_resolve tasks \<longleftrightarrow> (\<forall>t\<in>set tasks. set (dependencies t) \<subseteq> task_id ` set tasks)"
  by (auto simp: deps_resolve_def list_all_iff)

lemma calculateCPM_total:
  assumes "\<not> has_cycle tasks" "deps_resolve tasks"
  shows "\<exists>nodes. calculateCPM tasks = Inr ([], nodes)"
proof -
  from assms(1) obtain sortedIds where s: "topologicalSort tasks = Some sortedIds"
    by (cases "topologicalSort tasks") (auto simp: topologicalSort_None_iff)
  have "Range (dep_edges (taskMap_of tasks)) \<subseteq> task_id ` set tasks"
    using assms(2) by (auto simp: dep_edges_def deps_resolve_iff dest!: taskMap_of_SomeD)
  with topologicalSort_Some(4)[OF s] have "set sortedIds \<subseteq> fst ` set (initial_nodeMap tasks)"
    by (auto simp: initial_nodeMap_keys)
  from forward_pass_total[OF this] obtain nm1 where
    f: "forward_pass sortedIds (initial_nodeMap tasks) = Inr nm1" ..
  from backward_after_forward[OF f, of "projectDuration_of nm1"] obtain nm2 where
    "backward_pass (projectDuration_of nm1) (successorsMap_of tasks) (rev sortedIds) nm1 = Inr nm2" ..
  with s f show ?thesis by (simp add: calculateCPM_def)
qed

lemma initial_nodeMap_entry:
  assumes "(k, n) \<in> set (initial_nodeMap tasks)"
  shows "\<exists>t. map_of (taskMap_of tasks) k = Some t \<and> n = initial_node t
            \<and> t \<in> set tasks \<and> task_id t = k"
proof -
  from assms have "map_of (initial_nodeMap tasks) k = Some n"
    using initial_nodeMap_distinct[of tasks] by simp
  then show ?thesis by (rule initial_nodeMap_SomeD)
qed

lemma calculateCPM_run:
  assumes "\<not> has_cycle tasks" "calculateCPM tasks = Inr (out, nodes)"
  obtains sortedIds nm1 nm2 where
    "topologicalSort tasks = Some sortedIds"
    "forward_pass sortedIds (initial_nodeMap tasks) = Inr nm1"
    "backward_pass (projectDuration_of nm1) (successorsMap_of tasks) (rev sortedIds) nm1 = Inr nm2"
    "out = []" "nodes = map snd nm2"
    "distinct sortedIds" "set sortedIds = task_id ` set tasks"
    "map fst nm1 = map fst (initial_nodeMap tasks)"
    "map fst nm2 = map fst (initial_nodeMap tasks)"
proof -
  from assms obtain sortedIds nm1 nm2 where
    s: "topologicalSort tasks = Some sortedIds"
    and f: "forward_pass sortedIds (initial_nodeMap tasks) = Inr nm1"
    and b: "backward_pass (projectDuration_of nm1) (successorsMap_of tasks) (rev sortedIds) nm1 = Inr nm2"
    and o: "out = []" "nodes = map snd nm2"
    unfolding calculateCPM_acyclic[OF assms(1)] by blast
  have "set sortedIds \<subseteq> task_id ` set tasks"
    using forward_pass_Inr_keys[OF f] by (simp add: initial_nodeMap_keys)
  with topologicalSort_Some(3)[OF s] have "set sortedIds = task_id ` set tasks" by auto
  moreover have "map fst nm1 = map fst (initial_nodeMap tasks)"
    using forward_pass_keys[OF f] .
  moreover from this have "map fst nm2 = map fst (initial_nodeMap tasks)"
    using backward_pass_keys[OF b] by simp
  ultimately show ?thesis
    using that s f b o topologicalSort_Some(1)[OF s] by blast
qed

lemma unchanged_by_passes_fields:
  assumes "unchanged_by_passes t n"
  shows "task_id n = task_id t" "name n = name t" "optimistic n = optimistic t"
    "likely n = likely t" "pessimistic n = pessimistic t"
    "dependencies n = dependencies t" "duration n = calculateExpectedTime t"
proof -
  note u = assms[unfolded unchanged_by_passes_def]
  show "task_id n = task_id t" by (subst u, simp add: initial_node_def)
  show "name n = name t" by (subst u, simp add: initial_node_def)
  show "optimistic n = optimistic t" by (subst u, simp add: initial_node_def)
  show "likely n = likely t" by (subst u, simp add: initial_node_def)
  show "pessimistic n = pessimistic t" by (subst u, simp add: initial_node_def)
  show "dependencies n = dependencies t" by (subst u, simp add: initial_node_def)
  show "duration n = calculateExpectedTime t" by (subst u, simp add: initial_node_def)
qed

lemma passes_entry:
  assumes f: "forward_pass sortedIds (initial_nodeMap tasks) = Inr nm1"
    and b: "backward_pass pd sm ids nm1 = Inr nm2"
    and m2: "map_of nm2 k = Some n"
  shows "\<exists>t. map_of (taskMap_of tasks) k = Some t \<and> t \<in> set tasks \<and> task_id t = k
            \<and> unchanged_by_passes t n"
proof -
  from backward_pass_static[OF b m2] obtain n1 where
    m1: "map_of nm1 k = Some n1"
    and e1: "n = n1\<lparr>lateFinish := lateFinish n, lateStart := lateStart n, slack := slack n,
                 isCritical := isCritical n\<rparr>" by blast
  from forward_pass_static[OF f m1] obtain n0 where
    m0: "map_of (initial_nodeMap tasks) k = Some n0"
    and e0: "n1 = n0\<lparr>earlyStart := earlyStart n1, earlyFinish := earlyFinish n1\<rparr>" by blast
  from initial_nodeMap_SomeD[OF m0] obtain t where
    t: "map_of (taskMap_of tasks) k = Some t" "n0 = initial_node t" "t \<in> set tasks" "task_id t = k"
    by blast
  have es: "earlyStart n = earlyStart n1" "earlyFinish n = earlyFinish n1"
    by (subst e1, simp)+
  have "n = (initial_node t)\<lparr>earlyStart := earlyStart n, earlyFinish := earlyFinish n,
          lateStart := lateStart n, lateFinish := lateFinish n, slack := slack n,
          isCritical := isCritical n\<rparr>"
    by (subst e1, subst e0, simp add: es t(2))
  with t show ?thesis by (auto simp: unchanged_by_passes_def)
qed

lemma calculateCPM_entries:
  assumes "calculateCPM tasks = Inr (out, nodes)"
  shows "\<exists>nm. nodes = map snd nm \<and> map fst nm = map fst (initial_nodeMap tasks) \<and>
    (\<forall>k n. (k, n) \<in> set nm \<longrightarrow>
        (\<exists>t. map_of (taskMap_of tasks) k = Some t \<and> t \<in> set tasks \<and> task_id t = k
            \<and> unchanged_by_passes t n))"
proof (cases "has_cycle tasks")
  case True
  have "\<exists>t. map_of (taskMap_of tasks) k = Some t \<and> t \<in> set tasks \<and> task_id t = k
            \<and> unchanged_by_passes t n" if "(k, n) \<in> set (initial_nodeMap tasks)" for k n
    using initial_nodeMap_entry[OF that]
    by (auto simp: unchanged_by_passes_def initial_node_def)
  moreover have "nodes = map snd (initial_nodeMap tasks)"
    using calculateCPM_cycle[OF True] assms by simp
  ultimately show ?thesis by blast
next
  case False
  from False assms obtain sortedIds nm1 nm2 where
    f: "forward_pass sortedIds (initial_nodeMap tasks) = Inr nm1"
    and b: "backward_pass (projectDuration_of nm1) (successorsMap_of tasks) (rev sortedIds) nm1 = Inr nm2"
    and o: "nodes = map snd nm2"
    and k2: "map fst nm2 = map fst (initial_nodeMap tasks)"
    by (rule calculateCPM_run)
  have d: "distinct (map fst nm2)" using k2 initial_nodeMap_distinct[of tasks] by simp
  have "\<exists>t. map_of (taskMap_of tasks) k = Some t \<and> t \<in> set tasks \<and> task_id t = k
            \<and> unchanged_by_passes t n" if "(k, n) \<in> set nm2" for k n
    using passes_entry[OF f b, of k n] that d by simp
  with o k2 show ?thesis by blast
qed

lemma calculateCPM_node_entry:
  assumes "calculateCPM tasks = Inr (out, nodes)" "n \<in> set nodes"
  shows "\<exists>t. map_of (taskMap_of tasks) (task_id n) = Some t \<and> t \<in> set tasks
            \<and> unchanged_by_passes t n"
proof -
  from calculateCPM_entries[OF assms(1)] obtain nm where nm: "nodes = map snd nm"
    and e: "\<And>k n. (k, n) \<in> set nm \<Longrightarrow>
        \<exists>t. map_of (taskMap_of tasks) k = Some t \<and> t \<in> set tasks \<and> task_id t = k
            \<and> unchanged_by_passes t n"
    by blast
  from assms(2) nm obtain k where "(k, n) \<in> set nm" by auto
  from e[OF this] obtain t where t: "map_of (taskMap_of tasks) k = Some t" "t \<in> set tasks"
    "task_id t = k" "unchanged_by_passes t n" by blast
  from unchanged_by_passes_fields(1)[OF t(4)] t show ?thesis by auto
qed

lemma calculateCPM_ids:
  assumes "calculateCPM tasks = Inr (out, nodes)"
  shows "map task_id nodes = map fst (initial_nodeMap tasks)"
proof -
  from calculateCPM_entries[OF assms(1)] obtain nm where nm: "nodes = map snd nm"
    and k: "map fst nm = map fst (initial_nodeMap tasks)"
    and e: "\<And>k n. (k, n) \<in> set nm \<Longrightarrow>
        \<exists>t. map_of (taskMap_of tasks) k = Some t \<and> t \<in> set tasks \<and> task_id t = k
            \<and> unchanged_by_passes t n"
    by blast
  have "task_id (snd p) = fst p" if "p \<in> set nm" for p
    using e[of "fst p" "snd p"] that unchanged_by_passes_fields(1) by fastforce
  then have "map (task_id \<circ> snd) nm = map fst nm" by simp
  with nm k show ?thesis by simp
qed

lemma calculateCPM_ids_distinct:
  assumes "calculateCPM tasks = Inr (out, nodes)"
  shows "distinct (map task_id nodes)" "set (map task_id nodes) = set (map task_id tasks)"
  using calculateCPM_ids[OF assms] initial_nodeMap_distinct[of tasks]
    initial_nodeMap_keys[of tasks]
  by simp_all

lemma calculateCPM_returns:
  assumes "has_cycle tasks \<or> deps_resolve tasks"
  shows "\<exists>out nodes. calculateCPM tasks = Inr (out, nodes)"
proof (cases "has_cycle tasks")
  case True
  from calculateCPM_cycle[OF this] show ?thesis by blast
next
  case False
  with assms calculateCPM_total[of tasks] show ?thesis by blast
qed

lemma dangling_dependency_always_throws:
  assumes nc: "\<not> has_cycle tasks"
    and t: "map_of (taskMap_of tasks) i = Some t"
    and d: "d \<in> set (dependencies t)" "d \<notin> task_id ` set tasks"
  shows "calculateCPM tasks = Inl TypeError"
proof -
  from nc obtain sortedIds where s: "topologicalSort tasks = Some sortedIds"
    by (cases "topologicalSort tasks") (auto simp: topologicalSort_None_iff)
  have "i \<in> set sortedIds"
    using topologicalSort_Some(3)[OF s] taskMap_of_SomeD[OF t] by auto
  from deps_before_member[OF topologicalSort_Some(2)[OF s] this] t d(1)
  have "d \<in> set sortedIds" by (auto simp: deps_in_def)
  with d(2) have "\<not> set sortedIds \<subseteq> fst ` set (initial_nodeMap tasks)"
    by (auto simp: initial_nodeMap_keys)
  with forward_pass_Inr_keys[of sortedIds "initial_nodeMap tasks"]
  obtain e where e: "forward_pass sortedIds (initial_nodeMap tasks) = Inl e"
    by (cases "forward_pass sortedIds (initial_nodeMap tasks)") auto
  with forward_pass_Inl[OF e] s show ?thesis
    by (simp add: calculateCPM_def)
qed

subsection \<open>The folds as maxima and minima\<close>

lemma Max_insert_max:
  "finite S \<Longrightarrow> Max (insert (max a b) S) = Max (insert a (insert b S))"
  for a b :: "'a::linorder"
  by (cases "S = {}") (simp_all add: max.assoc)

lemma Min_insert_min:
  "finite S \<Longrightarrow> Min (insert (min a b) S) = Min (insert a (insert b S))"
  for a b :: "'a::linorder"
  by (cases "S = {}") (simp_all add: min.assoc)

lemma maxPredecessorEF_Max:
  "maxPredecessorEF nm ds
     = Max (insert 0 {earlyFinish m |m. \<exists>d\<in>set ds. map_of nm d = Some m})"
proof -
  define S where "S ds = {earlyFinish m |m. \<exists>d\<in>set ds. map_of nm d = Some m}" for ds
  have fin: "finite (S ds)" for ds
  proof -
    have "S ds \<subseteq> (\<lambda>d. earlyFinish (the (map_of nm d))) ` set ds"
      unfolding S_def by force
    then show ?thesis by (rule finite_subset) simp
  qed
  have S_Nil: "S [] = {}" by (simp add: S_def)
  have S_None: "S (d # ds) = S ds" if "map_of nm d = None" for d ds
    using that unfolding S_def by auto
  have S_Some: "S (d # ds) = insert (earlyFinish dn) (S ds)" if "map_of nm d = Some dn" for d ds dn
    using that unfolding S_def by auto
  have "foldl (\<lambda>m depId. case map_of nm depId of None \<Rightarrow> m
                          | Some depNode \<Rightarrow> max m (earlyFinish depNode)) a ds
      = Max (insert a (S ds))" for a
  proof (induction ds arbitrary: a)
    case Nil
    show ?case by (simp add: S_Nil)
  next
    case (Cons d ds)
    show ?case
    proof (cases "map_of nm d")
      case None
      with Cons.IH[of a] show ?thesis by (simp add: S_None)
    next
      case (Some dn)
      with Cons.IH[of "max a (earlyFinish dn)"] show ?thesis
        by (simp only: foldl_Cons option.case S_Some[OF Some] Max_insert_max[OF fin])
    qed
  qed
  then show ?thesis by (simp add: maxPredecessorEF_def S_def)
qed

lemma minSuccessorLS_Min:
  assumes "minSuccessorLS nm ss = Some l"
  shows "{lateStart m |m. \<exists>s\<in>set ss. map_of nm s = Some m} \<noteq> {}
    \<and> l = Min {lateStart m |m. \<exists>s\<in>set ss. map_of nm s = Some m}"
proof -
  let ?f = "\<lambda>m succId. case map_of nm succId of None \<Rightarrow> m
                | Some succNode \<Rightarrow> (case m of None \<Rightarrow> Some (lateStart succNode)
                                     | Some l \<Rightarrow> Some (min l (lateStart succNode)))"
  define S where "S ss = {lateStart m |m. \<exists>s\<in>set ss. map_of nm s = Some m}" for ss
  have fin: "finite (S ss)" for ss
  proof -
    have "S ss \<subseteq> (\<lambda>d. lateStart (the (map_of nm d))) ` set ss"
      unfolding S_def by force
    then show ?thesis by (rule finite_subset) simp
  qed
  have S_Nil: "S [] = {}" by (simp add: S_def)
  have S_None: "S (d # ds) = S ds" if "map_of nm d = None" for d ds
    using that unfolding S_def by auto
  have S_Some: "S (d # ds) = insert (lateStart dn) (S ds)" if "map_of nm d = Some dn" for d ds dn
    using that unfolding S_def by auto
  have gen: "foldl ?f a ss = (case a of
        None \<Rightarrow> (if S ss = {} then None else Some (Min (S ss)))
      | Some x \<Rightarrow> Some (Min (insert x (S ss))))" for a
  proof (induction ss arbitrary: a)
    case Nil
    show ?case by (cases a) (simp_all add: S_Nil)
  next
    case (Cons s ss)
    show ?case
    proof (cases "map_of nm s")
      case None
      with Cons.IH[of a] show ?thesis by (simp only: foldl_Cons option.case S_None[OF None])
    next
      case (Some sn)
      show ?thesis
      proof (cases a)
        case None
        with Some Cons.IH[of "Some (lateStart sn)"] show ?thesis
          by (simp add: S_Some)
      next
        case (Some x)
        with \<open>map_of nm s = Some sn\<close> Cons.IH[of "Some (min x (lateStart sn))"]
        show ?thesis
          by (simp only: foldl_Cons option.case S_Some[OF \<open>map_of nm s = Some sn\<close>]
              Min_insert_min[OF fin])
      qed
    qed
  qed
  from assms gen[of None] have "S ss \<noteq> {} \<and> l = Min (S ss)"
    by (auto simp: minSuccessorLS_def split: if_splits)
  then show ?thesis unfolding S_def .
qed

lemma projectDuration_of_Max:
  "projectDuration_of nm = Max (insert 0 (earlyFinish ` snd ` set nm))"
proof -
  have "foldl (\<lambda>pd (k, n). max pd (earlyFinish n)) a nm
      = Max (insert a (earlyFinish ` snd ` set nm))" for a
  proof (induction nm arbitrary: a)
    case Nil
    show ?case by simp
  next
    case (Cons p nm)
    have "foldl (\<lambda>pd (k, n). max pd (earlyFinish n)) a (p # nm)
        = foldl (\<lambda>pd (k, n). max pd (earlyFinish n)) (max a (earlyFinish (snd p))) nm"
      by (cases p) simp
    also have "\<dots> = Max (insert (max a (earlyFinish (snd p))) (earlyFinish ` snd ` set nm))"
      by (rule Cons.IH)
    also have "\<dots> = Max (insert a (insert (earlyFinish (snd p)) (earlyFinish ` snd ` set nm)))"
      by (rule Max_insert_max) simp
    also have "insert a (insert (earlyFinish (snd p)) (earlyFinish ` snd ` set nm))
        = insert a (earlyFinish ` snd ` set (p # nm))"
      by simp
    finally show ?case .
  qed
  then show ?thesis by (simp add: projectDuration_of_def)
qed

lemma backward_pass_early:
  assumes "backward_pass pd sm ids nm = Inr nm'"
  shows "map_option earlyFinish (map_of nm' d) = map_option earlyFinish (map_of nm d)"
    and "map_option earlyStart (map_of nm' d) = map_option earlyStart (map_of nm d)"
proof -
  have k: "fst ` set nm' = fst ` set nm"
    using backward_pass_keys[OF assms] by (metis set_map)
  show "map_option earlyFinish (map_of nm' d) = map_option earlyFinish (map_of nm d)"
  proof (cases "map_of nm' d")
    case None
    then have "map_of nm d = None" using k by (simp add: map_of_eq_None_iff)
    with None show ?thesis by simp
  next
    case (Some n')
    from backward_pass_static[OF assms Some] obtain n where n: "map_of nm d = Some n"
      and e: "n' = n\<lparr>lateFinish := lateFinish n', lateStart := lateStart n', slack := slack n',
                 isCritical := isCritical n'\<rparr>" by blast
    have "earlyFinish n' = earlyFinish n" by (subst e, simp)
    with Some n show ?thesis by simp
  qed
  show "map_option earlyStart (map_of nm' d) = map_option earlyStart (map_of nm d)"
  proof (cases "map_of nm' d")
    case None
    then have "map_of nm d = None" using k by (simp add: map_of_eq_None_iff)
    with None show ?thesis by simp
  next
    case (Some n')
    from backward_pass_static[OF assms Some] obtain n where n: "map_of nm d = Some n"
      and e: "n' = n\<lparr>lateFinish := lateFinish n', lateStart := lateStart n', slack := slack n',
                 isCritical := isCritical n'\<rparr>" by blast
    have "earlyStart n' = earlyStart n" by (subst e, simp)
    with Some n show ?thesis by simp
  qed
qed


lemma projectDuration_Max:
  "projectDuration nodes = Max (insert 0 (earlyFinish ` set nodes))"
proof -
  have "foldl (\<lambda>mx node. max mx (earlyFinish node)) a nodes
      = Max (insert a (earlyFinish ` set nodes))" for a
  proof (induction nodes arbitrary: a)
    case Nil
    show ?case by simp
  next
    case (Cons p nm)
    have "foldl (\<lambda>mx node. max mx (earlyFinish node)) a (p # nm)
        = foldl (\<lambda>mx node. max mx (earlyFinish node)) (max a (earlyFinish p)) nm"
      by simp
    also have "\<dots> = Max (insert (max a (earlyFinish p)) (earlyFinish ` set nm))"
      by (rule Cons.IH)
    also have "\<dots> = Max (insert a (insert (earlyFinish p) (earlyFinish ` set nm)))"
      by (rule Max_insert_max) simp
    also have "insert a (insert (earlyFinish p) (earlyFinish ` set nm))
        = insert a (earlyFinish ` set (p # nm))"
      by simp
    finally show ?case .
  qed
  then show ?thesis by (simp add: projectDuration_def)
qed

subsection \<open>The fields of the nodes of a result\<close>

lemma initial_deps_link:
  assumes "map_of (initial_nodeMap tasks) x = Some m"
  shows "dependencies m = deps_in (taskMap_of tasks) x"
  using initial_nodeMap_SomeD[OF assms]
  by (auto simp: deps_in_def initial_node_def)

lemma run_forward_final:
  assumes s: "topologicalSort tasks = Some sortedIds"
    and f: "forward_pass sortedIds (initial_nodeMap tasks) = Inr nm1"
    and b: "backward_pass pd sm ids nm1 = Inr nm2"
    and m2: "map_of nm2 k = Some n"
  shows "earlyStart n = maxPredecessorEF nm2 (dependencies n)"
    and "earlyFinish n = earlyStart n + duration n"
proof -
  from backward_pass_static[OF b m2] obtain n1 where
    m1: "map_of nm1 k = Some n1"
    and e1: "n = n1\<lparr>lateFinish := lateFinish n, lateStart := lateStart n, slack := slack n,
                 isCritical := isCritical n\<rparr>" by blast
  from forward_pass_static[OF f m1] obtain n0 where
    m0: "map_of (initial_nodeMap tasks) k = Some n0"
    and e0: "n1 = n0\<lparr>earlyStart := earlyStart n1, earlyFinish := earlyFinish n1\<rparr>" by blast
  have k: "k \<in> set sortedIds"
  proof -
    from m0 have "k \<in> fst ` set (initial_nodeMap tasks)"
      by (auto dest: map_of_SomeD intro: rev_image_eqI)
    with topologicalSort_Some(3)[OF s] show ?thesis by (auto simp: initial_nodeMap_keys)
  qed
  have rd: "ready (deps_in (taskMap_of tasks)) sortedIds"
    using ready_forward[of "deps_in (taskMap_of tasks)" "[]" sortedIds]
      topologicalSort_Some(1,2)[OF s] by simp
  have "map_of nm1 k = Some (forward_node nm1 n0)"
    using f rd topologicalSort_Some(1)[OF s] initial_deps_link k m0
    by (rule forward_pass_done)
  with m1 have n1: "n1 = forward_node nm1 n0" by simp
  have eq: "earlyStart n = earlyStart n1" "earlyFinish n = earlyFinish n1"
    "dependencies n = dependencies n1" "duration n = duration n1"
    by (subst e1, simp)+
  have eq0: "dependencies n1 = dependencies n0" "duration n1 = duration n0"
    by (subst e0, simp)+
  have "maxPredecessorEF nm1 (dependencies n0) = maxPredecessorEF nm2 (dependencies n0)"
    by (rule maxPredecessorEF_cong) (simp add: backward_pass_early(1)[OF b])
  moreover have "earlyStart n1 = maxPredecessorEF nm1 (dependencies n0)"
    "earlyFinish n1 = maxPredecessorEF nm1 (dependencies n0) + duration n0"
    by (subst n1, simp add: forward_node_def)+
  ultimately show "earlyStart n = maxPredecessorEF nm2 (dependencies n)"
    and "earlyFinish n = earlyStart n + duration n"
    using eq eq0 by simp_all
qed

lemma successors_are_dependents:
  assumes "distinct (map task_id tasks)"
    and "s \<in> set (successors_in (successorsMap_of tasks) x)"
  shows "x \<in> set (deps_in (taskMap_of tasks) s)"
proof -
  from assms(2) obtain l where l: "map_of (successorsMap_of tasks) x = Some l" and sl: "s \<in> set l"
    by (cases "map_of (successorsMap_of tasks) x") (auto simp: successors_in_def)
  from successorsMap_of_spec[of tasks x] l
  have "set l = {task_id t |t. t \<in> set tasks \<and> x \<in> set (dependencies t)}"
    by (auto split: if_splits)
  with sl obtain t where t: "t \<in> set tasks" "x \<in> set (dependencies t)" "s = task_id t"
    by auto
  from taskMap_of_distinct_ids[OF assms(1) t(1)] t show ?thesis
    by (simp add: deps_in_def)
qed

lemma run_backward_final:
  assumes s: "topologicalSort tasks = Some sortedIds"
    and f: "forward_pass sortedIds (initial_nodeMap tasks) = Inr nm1"
    and b: "backward_pass pd (successorsMap_of tasks) (rev sortedIds) nm1 = Inr nm2"
    and d: "distinct (map task_id tasks)"
    and m2: "map_of nm2 k = Some n"
  shows "(if successors_in (successorsMap_of tasks) k = [] then Some pd
          else minSuccessorLS nm2 (successors_in (successorsMap_of tasks) k))
         = Some (lateFinish n)"
proof -
  from backward_pass_static[OF b m2] obtain n1 where
    m1: "map_of nm1 k = Some n1" by blast
  from forward_pass_static[OF f m1] obtain n0 where
    m0: "map_of (initial_nodeMap tasks) k = Some n0" by blast
  have k: "k \<in> set (rev sortedIds)"
  proof -
    from m0 have "k \<in> fst ` set (initial_nodeMap tasks)"
      by (auto dest: map_of_SomeD intro: rev_image_eqI)
    with topologicalSort_Some(3)[OF s] show ?thesis by (auto simp: initial_nodeMap_keys)
  qed
  have rd: "ready (successors_in (successorsMap_of tasks)) (rev sortedIds)"
    using topologicalSort_Some(2,1)[OF s]
    by (rule ready_backward) (rule successors_are_dependents[OF d])
  have "distinct (rev sortedIds)" using topologicalSort_Some(1)[OF s] by simp
  from backward_pass_done[OF b rd this k m1] m2
  have "backward_node pd (successorsMap_of tasks) nm2 k n1 = Inr n" by auto
  then obtain lf where lf: "(if successors_in (successorsMap_of tasks) k = [] then Some pd
            else minSuccessorLS nm2 (successors_in (successorsMap_of tasks) k)) = Some lf"
    and n: "n = n1\<lparr>lateFinish := lf, lateStart := lf - duration n1,
               slack := lf - duration n1 - earlyStart n1,
               isCritical := \<bar>lf - duration n1 - earlyStart n1\<bar> < 1 / 100\<rparr>"
    unfolding backward_node_Inr by blast
  have "lateFinish n = lf" by (subst n, simp)
  with lf show ?thesis by simp
qed

lemma node_deps_in:
  assumes "calculateCPM tasks = Inr (out, nodes)" "n \<in> set nodes"
  shows "deps_in (taskMap_of tasks) (task_id n) = dependencies n"
proof -
  from calculateCPM_node_entry[OF assms] obtain t where
    "map_of (taskMap_of tasks) (task_id n) = Some t" "unchanged_by_passes t n" by blast
  with unchanged_by_passes_fields(6)[of t n] show ?thesis by (simp add: deps_in_def)
qed

lemma cpm_lookup:
  assumes nc: "\<not> has_cycle tasks" and c: "calculateCPM tasks = Inr (out, nodes)"
  shows "\<exists>sortedIds nm1 nm2.
    topologicalSort tasks = Some sortedIds \<and>
    forward_pass sortedIds (initial_nodeMap tasks) = Inr nm1 \<and>
    backward_pass (projectDuration_of nm1) (successorsMap_of tasks) (rev sortedIds) nm1 = Inr nm2 \<and>
    set sortedIds = task_id ` set tasks \<and>
    projectDuration_of nm1 = projectDuration nodes \<and>
    (\<forall>k n. map_of nm2 k = Some n \<longleftrightarrow> n \<in> set nodes \<and> task_id n = k)"
proof -
  from nc c obtain sortedIds nm1 nm2 where
    s: "topologicalSort tasks = Some sortedIds"
    and f: "forward_pass sortedIds (initial_nodeMap tasks) = Inr nm1"
    and b: "backward_pass (projectDuration_of nm1) (successorsMap_of tasks) (rev sortedIds) nm1 = Inr nm2"
    and o: "nodes = map snd nm2"
    and ids: "set sortedIds = task_id ` set tasks"
    and k1: "map fst nm1 = map fst (initial_nodeMap tasks)"
    and k2: "map fst nm2 = map fst (initial_nodeMap tasks)"
    by (rule calculateCPM_run)
  have d2: "distinct (map fst nm2)" using k2 initial_nodeMap_distinct[of tasks] by simp
  have d1: "distinct (map fst nm1)" using k1 initial_nodeMap_distinct[of tasks] by simp
  have key: "task_id n = k" if "(k, n) \<in> set nm2" for k n
  proof -
    from that d2 have "map_of nm2 k = Some n" by simp
    from passes_entry[OF f b this] unchanged_by_passes_fields(1) show ?thesis by fastforce
  qed
  have look: "map_of nm2 k = Some n \<longleftrightarrow> n \<in> set nodes \<and> task_id n = k" for k n
  proof
    assume "map_of nm2 k = Some n"
    then have "(k, n) \<in> set nm2" by (rule map_of_SomeD)
    with key[OF this] o show "n \<in> set nodes \<and> task_id n = k" by force
  next
    assume a: "n \<in> set nodes \<and> task_id n = k"
    with o obtain k' where "(k', n) \<in> set nm2" by auto
    with key[OF this] a d2 show "map_of nm2 k = Some n" by simp
  qed
  have "earlyFinish ` snd ` set nm1 = earlyFinish ` snd ` set nm2"
  proof -
    have "earlyFinish ` ran (map_of nm1) = earlyFinish ` ran (map_of nm2)"
    proof (intro set_eqI iffI)
      fix y assume "y \<in> earlyFinish ` ran (map_of nm1)"
      then obtain k n where kn: "map_of nm1 k = Some n" "y = earlyFinish n"
        by (auto simp: ran_def)
      with backward_pass_early(1)[OF b, of k] obtain n' where
        "map_of nm2 k = Some n'" "earlyFinish n' = y"
        by (cases "map_of nm2 k") auto
      then have "n' \<in> ran (map_of nm2)" "y = earlyFinish n'" by (auto simp: ran_def)
      then show "y \<in> earlyFinish ` ran (map_of nm2)" by (rule rev_image_eqI)
    next
      fix y assume "y \<in> earlyFinish ` ran (map_of nm2)"
      then obtain k n where kn: "map_of nm2 k = Some n" "y = earlyFinish n"
        by (auto simp: ran_def)
      with backward_pass_early(1)[OF b, of k] obtain n' where
        "map_of nm1 k = Some n'" "earlyFinish n' = y"
        by (cases "map_of nm1 k") auto
      then have "n' \<in> ran (map_of nm1)" "y = earlyFinish n'" by (auto simp: ran_def)
      then show "y \<in> earlyFinish ` ran (map_of nm1)" by (rule rev_image_eqI)
    qed
    then show ?thesis by (simp add: ran_distinct[OF d1] ran_distinct[OF d2])
  qed
  then have "projectDuration_of nm1 = projectDuration nodes"
    by (simp add: projectDuration_of_Max projectDuration_Max o)
  with s f b ids look show ?thesis by blast
qed

lemma cpm_forward:
  assumes nc: "\<not> has_cycle tasks" and c: "calculateCPM tasks = Inr (out, nodes)"
    and n: "n \<in> set nodes"
  shows "earlyStart n = Max (insert 0 (earlyFinish ` set (predecessors nodes n)))"
    and "earlyFinish n = earlyStart n + duration n"
proof -
  from cpm_lookup[OF nc c] obtain sortedIds nm1 nm2 where
    s: "topologicalSort tasks = Some sortedIds"
    and f: "forward_pass sortedIds (initial_nodeMap tasks) = Inr nm1"
    and b: "backward_pass (projectDuration_of nm1) (successorsMap_of tasks) (rev sortedIds) nm1 = Inr nm2"
    and look: "\<And>k n. map_of nm2 k = Some n \<longleftrightarrow> n \<in> set nodes \<and> task_id n = k"
    by blast
  from n look have m2: "map_of nm2 (task_id n) = Some n" by simp
  have "{earlyFinish m |m. \<exists>d\<in>set (dependencies n). map_of nm2 d = Some m}
      = earlyFinish ` set (predecessors nodes n)"
    by (auto simp: look predecessors_def)
  with run_forward_final(1)[OF s f b m2]
  show "earlyStart n = Max (insert 0 (earlyFinish ` set (predecessors nodes n)))"
    by (simp add: maxPredecessorEF_Max)
  show "earlyFinish n = earlyStart n + duration n"
    using run_forward_final(2)[OF s f b m2] .
qed

lemma cpm_local:
  assumes nc: "\<not> has_cycle tasks" and c: "calculateCPM tasks = Inr (out, nodes)"
    and n: "n \<in> set nodes"
  shows "lateStart n = lateFinish n - duration n" "slack n = lateStart n - earlyStart n"
    "isCritical n = (\<bar>slack n\<bar> < 1 / 100)"
proof -
  from cpm_lookup[OF nc c] obtain sortedIds nm1 nm2 where
    b: "backward_pass (projectDuration_of nm1) (successorsMap_of tasks) (rev sortedIds) nm1 = Inr nm2"
    and ids: "set sortedIds = task_id ` set tasks"
    and look: "\<And>k n. map_of nm2 k = Some n \<longleftrightarrow> n \<in> set nodes \<and> task_id n = k"
    by blast
  from n look have m2: "map_of nm2 (task_id n) = Some n" by simp
  have "task_id n \<in> set (rev sortedIds)"
    using calculateCPM_ids_distinct(2)[OF c] n ids by auto
  from backward_pass_local[OF b this m2]
  show "lateStart n = lateFinish n - duration n" "slack n = lateStart n - earlyStart n"
    "isCritical n = (\<bar>slack n\<bar> < 1 / 100)"
    by simp_all
qed

lemma successors_nodes:
  assumes c: "calculateCPM tasks = Inr (out, nodes)"
    and d: "distinct (map task_id tasks)"
    and n: "n \<in> set nodes" and m: "m \<in> set nodes"
  shows "task_id m \<in> set (successors_in (successorsMap_of tasks) (task_id n))
     \<longleftrightarrow> task_id n \<in> set (dependencies m)"
proof -
  have nid: "task_id n \<in> task_id ` set tasks"
    using calculateCPM_ids_distinct(2)[OF c] n by auto
  then obtain l where l: "map_of (successorsMap_of tasks) (task_id n) = Some l"
    and sl: "set l = {task_id t |t. t \<in> set tasks \<and> task_id n \<in> set (dependencies t)}"
    using successorsMap_of_spec[of tasks "task_id n"]
    by (cases "map_of (successorsMap_of tasks) (task_id n)") auto
  from calculateCPM_node_entry[OF c m] obtain t where
    t: "map_of (taskMap_of tasks) (task_id m) = Some t" "t \<in> set tasks"
    and u: "unchanged_by_passes t m" by blast
  note tf = unchanged_by_passes_fields[OF u]
  show ?thesis
  proof
    assume "task_id m \<in> set (successors_in (successorsMap_of tasks) (task_id n))"
    with l sl obtain t' where t': "t' \<in> set tasks" "task_id n \<in> set (dependencies t')"
      "task_id m = task_id t'"
      by (auto simp: successors_in_def)
    from taskMap_of_distinct_ids[OF d t'(1)] t'(3) t(1) have "t' = t" by simp
    with t' tf show "task_id n \<in> set (dependencies m)" by simp
  next
    assume "task_id n \<in> set (dependencies m)"
    with tf t(2) have "task_id m \<in> set l" unfolding sl by force
    with l show "task_id m \<in> set (successors_in (successorsMap_of tasks) (task_id n))"
      by (simp add: successors_in_def)
  qed
qed

lemma cpm_backward:
  assumes nc: "\<not> has_cycle tasks" and c: "calculateCPM tasks = Inr (out, nodes)"
    and d: "distinct (map task_id tasks)"
    and n: "n \<in> set nodes"
  shows "lateFinish n = (if successors nodes n = [] then projectDuration nodes
                        else Min (lateStart ` set (successors nodes n)))"
proof -
  from cpm_lookup[OF nc c] obtain sortedIds nm1 nm2 where
    s: "topologicalSort tasks = Some sortedIds"
    and f: "forward_pass sortedIds (initial_nodeMap tasks) = Inr nm1"
    and b: "backward_pass (projectDuration_of nm1) (successorsMap_of tasks) (rev sortedIds) nm1 = Inr nm2"
    and pd: "projectDuration_of nm1 = projectDuration nodes"
    and look: "\<And>k n. map_of nm2 k = Some n \<longleftrightarrow> n \<in> set nodes \<and> task_id n = k"
    by blast
  let ?ss = "successors_in (successorsMap_of tasks) (task_id n)"
  from n look have m2: "map_of nm2 (task_id n) = Some n" by simp
  have lf: "(if ?ss = [] then Some (projectDuration nodes) else minSuccessorLS nm2 ?ss)
      = Some (lateFinish n)"
    using run_backward_final[OF s f b d m2] unfolding pd .
  have S: "{lateStart m |m. \<exists>s\<in>set ?ss. map_of nm2 s = Some m}
      = lateStart ` set (successors nodes n)"
    using successors_nodes[OF c d n] by (auto simp: look successors_def)
  have ids: "set ?ss \<subseteq> task_id ` set nodes"
    using successors_in_ids[of tasks "task_id n"] calculateCPM_ids_distinct(2)[OF c] by simp
  have e: "?ss = [] \<longleftrightarrow> successors nodes n = []"
  proof
    assume "?ss = []"
    then show "successors nodes n = []"
      using successors_nodes[OF c d n] by (auto simp: successors_def filter_empty_conv)
  next
    assume a: "successors nodes n = []"
    show "?ss = []"
    proof (rule ccontr)
      assume "?ss \<noteq> []"
      then obtain x where x: "x \<in> set ?ss" by (cases ?ss) auto
      with ids obtain m where "m \<in> set nodes" "task_id m = x" by auto
      with x successors_nodes[OF c d n, of m] a show False
        by (auto simp: successors_def filter_empty_conv)
    qed
  qed
  show ?thesis
  proof (cases "successors nodes n = []")
    case True
    with lf e show ?thesis by simp
  next
    case False
    with lf e have "minSuccessorLS nm2 ?ss = Some (lateFinish n)" by simp
    from minSuccessorLS_Min[OF this] S False show ?thesis by simp
  qed
qed

subsection \<open>Early times never exceed late times\<close>

lemma cpm_order:
  assumes nc: "\<not> has_cycle tasks" and c: "calculateCPM tasks = Inr (out, nodes)"
  shows "\<exists>sortedIds. topologicalSort tasks = Some sortedIds \<and> distinct sortedIds \<and>
    set sortedIds = task_id ` set nodes \<and>
    deps_before (deps_in (taskMap_of tasks)) sortedIds \<and>
    ready (deps_in (taskMap_of tasks)) sortedIds \<and>
    (distinct (map task_id tasks) \<longrightarrow>
       ready (successors_in (successorsMap_of tasks)) (rev sortedIds))"
proof -
  from cpm_lookup[OF nc c] obtain sortedIds where
    s: "topologicalSort tasks = Some sortedIds"
    and ids: "set sortedIds = task_id ` set tasks"
    by blast
  note t = topologicalSort_Some[OF s]
  have "ready (deps_in (taskMap_of tasks)) sortedIds"
    using ready_forward[of "deps_in (taskMap_of tasks)" "[]" sortedIds] t(1,2) by simp
  moreover have "ready (successors_in (successorsMap_of tasks)) (rev sortedIds)"
    if "distinct (map task_id tasks)"
    using t(2,1) by (rule ready_backward) (rule successors_are_dependents[OF that])
  moreover have "set sortedIds = task_id ` set nodes"
    using ids calculateCPM_ids_distinct(2)[OF c] by simp
  ultimately show ?thesis using s t(1,2) by blast
qed






subsection \<open>Evaluation of the concrete inputs\<close>

lemmas cpm_eval =
  calculateCPM_def topologicalSort_def taskMap_of_def task_of_def visit.simps
  initial_nodeMap_def successorsMap_of_def add_successor_def initial_node_def
  forward_node_def maxPredecessorEF_def projectDuration_of_def backward_node_def
  successors_in_def minSuccessorLS_def calculateExpectedTime_def node_of_def

lemma four_tasks_result: "calculateCPM four_tasks = Inr ([], four_nodes)"
  by (simp add: four_tasks_def four_nodes_def cpm_eval)

lemma four_tasks_acyclic: "\<not> has_cycle four_tasks"
  by code_simp

lemma four_tasks_resolve: "deps_resolve four_tasks"
  by (simp add: deps_resolve_def four_tasks_def task_of_def)

lemma four_tasks_distinct: "distinct (map task_id four_tasks)"
  by (simp add: four_tasks_def task_of_def)

subsection \<open>Existence of a critical path\<close>

lemma no_successors_iff:
  assumes c: "calculateCPM tasks = Inr (out, nodes)"
    and d: "distinct (map task_id tasks)" and n: "n \<in> set nodes"
  shows "successors nodes n = [] \<longleftrightarrow> (\<forall>t\<in>set tasks. task_id n \<notin> set (dependencies t))"
proof
  assume a: "successors nodes n = []"
  show "\<forall>t\<in>set tasks. task_id n \<notin> set (dependencies t)"
  proof
    fix t assume t: "t \<in> set tasks"
    then have "task_id t \<in> task_id ` set nodes"
      using calculateCPM_ids_distinct(2)[OF c] by auto
    then obtain m where m: "m \<in> set nodes" "task_id m = task_id t" by auto
    from calculateCPM_node_entry[OF c m(1)] obtain t' where
      t': "map_of (taskMap_of tasks) (task_id m) = Some t'" "unchanged_by_passes t' m" by blast
    from taskMap_of_distinct_ids[OF d t] m(2) t'(1) have "t' = t" by simp
    with unchanged_by_passes_fields(6)[OF t'(2)] have "dependencies m = dependencies t" by simp
    with a m(1) show "task_id n \<notin> set (dependencies t)"
      by (auto simp: successors_def filter_empty_conv)
  qed
next
  assume a: "\<forall>t\<in>set tasks. task_id n \<notin> set (dependencies t)"
  show "successors nodes n = []"
  proof (rule ccontr)
    assume "successors nodes n \<noteq> []"
    then obtain m where m: "m \<in> set nodes" "task_id n \<in> set (dependencies m)"
      by (auto simp: successors_def filter_empty_conv)
    from calculateCPM_node_entry[OF c m(1)] obtain t' where
      t': "t' \<in> set tasks" "unchanged_by_passes t' m" by blast
    with unchanged_by_passes_fields(6)[OF t'(2)] a m(2) show False by auto
  qed
qed









subsection \<open>The calendar example on hosts at and west of UTC\<close>

lemma calendar_dates_at_UTC:
  "computeCalendarDates (host_at 0) [node_A_0_5] ''2026-01-01''
     = Inr [(''A'', \<lparr>startDate = ''2026-01-01'', endDate = ''2026-01-06''\<rparr>)]"
  by code_simp

lemma calendar_dates_west_of_UTC:
  "computeCalendarDates (host_at (- 300)) [node_A_0_5] ''2026-01-01''
     = Inr [(''A'', \<lparr>startDate = ''2026-01-01'', endDate = ''2026-01-06''\<rparr>)]"
  by code_simp

section \<open>The claims\<close>

subsection \<open>C1: Cycles are reported, not thrown\<close>

text \<open>
  Claim C1 (as amended). If the dependency graph of the task list contains a cycle,
  \<open>topologicalSort\<close> returns \<open>null\<close> and \<open>calculateCPM\<close> does not fail: it writes
  \<open>Cycle detected in graph!\<close> to the console and returns the nodes of the node map as
  they were built before the sort, none of them touched by a pass.
\<close>

theorem cycle_reported_not_thrown:
  "has_cycle tasks \<Longrightarrow>
     topologicalSort tasks = None \<and>
     calculateCPM tasks = Inr ([''Cycle detected in graph!''], map snd (initial_nodeMap tasks))"
  by (simp add: topologicalSort_None_iff calculateCPM_cycle)

theorem cycle_reported_not_thrown_witness:
  "has_cycle cycle_ABC \<and> topologicalSort cycle_ABC = None \<and>
   calculateCPM cycle_ABC =
     Inr ([''Cycle detected in graph!''],
          [initial_node (task_of ''A'' 1 2 3 [''B'']),
           initial_node (task_of ''B'' 2 3 6 [''C'']),
           initial_node (task_of ''C'' 1 2 4 [''A''])])"
proof -
  have h: "has_cycle cycle_ABC" by code_simp
  have "map snd (initial_nodeMap cycle_ABC) =
      [initial_node (task_of ''A'' 1 2 3 [''B'']),
       initial_node (task_of ''B'' 2 3 6 [''C'']),
       initial_node (task_of ''C'' 1 2 4 [''A''])]"
    by (simp add: initial_nodeMap_def cycle_ABC_def task_of_def)
  with h cycle_reported_not_thrown[OF h] show ?thesis by simp
qed

text \<open>
  The claim as the specification states it (the computation fails and the caller gets
  no nodes) is false for the loop \<open>A \<rightarrow> B \<rightarrow> C \<rightarrow> A\<close>: the call returns three nodes.
\<close>

theorem cycle_ABC_returns_nodes:
  "has_cycle cycle_ABC \<and>
   calculateCPM cycle_ABC =
     Inr ([''Cycle detected in graph!''],
          [initial_node (task_of ''A'' 1 2 3 [''B'']),
           initial_node (task_of ''B'' 2 3 6 [''C'']),
           initial_node (task_of ''C'' 1 2 4 [''A''])])"
proof -
  have "has_cycle cycle_ABC" by code_simp
  moreover have "calculateCPM cycle_ABC =
     Inr ([''Cycle detected in graph!''],
          [initial_node (task_of ''A'' 1 2 3 [''B'']),
           initial_node (task_of ''B'' 2 3 6 [''C'']),
           initial_node (task_of ''C'' 1 2 4 [''A''])])"
    by (simp add: calculateCPM_def topologicalSort_def taskMap_of_def cycle_ABC_def
        task_of_def visit.simps initial_nodeMap_def)
  ultimately show ?thesis ..
qed

subsection \<open>C2: Dangling dependencies\<close>

text \<open>
  Claim C2. A task that lists a dependency id absent from the task list is to be
  computed as though that dependency did not exist, without failure. The guards
  \<open>if (task)\<close>, \<open>if (succs)\<close> and \<open>if (depNode)\<close> are there for that, but \<open>visit\<close> pushes
  the absent id onto \<open>order\<close> like any other, and the forward pass then reads
  \<open>nodeMap.get(id)!.dependencies\<close> of \<open>undefined\<close>: for the single task \<open>A\<close> that
  depends on the absent \<open>X\<close>, the sorted ids are \<open>[X, A]\<close> and \<open>calculateCPM\<close> throws.
\<close>

theorem dangling_dependency_throws:
  "topologicalSort [task_of ''A'' 1 2 3 [''X'']] = Some [''X'', ''A'']
   \<and> calculateCPM [task_of ''A'' 1 2 3 [''X'']] = Inl TypeError"
  by (simp add: calculateCPM_def topologicalSort_def taskMap_of_def task_of_def visit.simps
      initial_nodeMap_def successorsMap_of_def add_successor_def)

subsection \<open>C3: Forward pass\<close>

text \<open>
  Claim C3 (as amended). For every acyclic task list \<open>calculateCPM\<close> returns whenever
  every dependency id is the id of a task of the list, and in every result it returns
  for an acyclic list: the sorted ids are the node ids, each once, every id after the
  dependencies of its task; each node's \<open>earlyStart\<close> is the maximum of 0 and the
  \<open>earlyFinish\<close> of the nodes it lists as dependencies (0 when it lists none that is a
  node), its \<open>earlyFinish\<close> is \<open>earlyStart + duration\<close>, and so its \<open>earlyStart\<close> is no
  less than the \<open>earlyFinish\<close> of any of those nodes.
\<close>

theorem forward_pass_early_times:
  assumes "\<not> has_cycle tasks"
  shows "(deps_resolve tasks \<longrightarrow> (\<exists>nodes. calculateCPM tasks = Inr ([], nodes))) \<and>
    (\<forall>out nodes. calculateCPM tasks = Inr (out, nodes) \<longrightarrow>
      (\<exists>sortedIds. topologicalSort tasks = Some sortedIds \<and> distinct sortedIds \<and>
          set sortedIds = task_id ` set nodes \<and>
          deps_before (deps_in (taskMap_of tasks)) sortedIds) \<and>
      (\<forall>n\<in>set nodes.
          deps_in (taskMap_of tasks) (task_id n) = dependencies n \<and>
          earlyStart n = Max (insert 0 (earlyFinish ` set (predecessors nodes n))) \<and>
          earlyFinish n = earlyStart n + duration n \<and>
          (\<forall>m\<in>set (predecessors nodes n). earlyFinish m \<le> earlyStart n)))"
proof (intro conjI impI allI ballI)
  assume "deps_resolve tasks"
  with assms show "\<exists>nodes. calculateCPM tasks = Inr ([], nodes)"
    by (rule calculateCPM_total)
next
  fix out nodes assume c: "calculateCPM tasks = Inr (out, nodes)"
  from cpm_order[OF assms c]
  show "\<exists>sortedIds. topologicalSort tasks = Some sortedIds \<and> distinct sortedIds \<and>
          set sortedIds = task_id ` set nodes \<and>
          deps_before (deps_in (taskMap_of tasks)) sortedIds"
    by blast
  fix n assume n: "n \<in> set nodes"
  show "deps_in (taskMap_of tasks) (task_id n) = dependencies n"
    using c n by (rule node_deps_in)
  show es: "earlyStart n = Max (insert 0 (earlyFinish ` set (predecessors nodes n)))"
    using assms c n by (rule cpm_forward(1))
  show "earlyFinish n = earlyStart n + duration n"
    using assms c n by (rule cpm_forward(2))
  fix m assume "m \<in> set (predecessors nodes n)"
  then have "earlyFinish m \<le> Max (insert 0 (earlyFinish ` set (predecessors nodes n)))"
    by (intro Max_ge) auto
  with es show "earlyFinish m \<le> earlyStart n" by simp
qed

theorem forward_pass_early_times_witness:
  "\<not> has_cycle four_tasks \<and> deps_resolve four_tasks \<and>
   (\<exists>nodes. calculateCPM four_tasks = Inr ([], nodes) \<and>
      topologicalSort four_tasks = Some [''A'', ''B'', ''C'', ''D''] \<and>
      map task_id nodes = [''A'', ''B'', ''C'', ''D''] \<and>
      map duration nodes = [2, 10 / 3, 13 / 6, 31 / 6] \<and>
      map earlyStart nodes = [0, 2, 2, 16 / 3] \<and>
      map earlyFinish nodes = [2, 16 / 3, 25 / 6, 21 / 2])"
proof -
  note h = four_tasks_acyclic
  from forward_pass_early_times[OF h] four_tasks_resolve obtain nodes where
    c: "calculateCPM four_tasks = Inr ([], nodes)" by blast
  with four_tasks_result have n: "nodes = four_nodes" by simp
  have "topologicalSort four_tasks = Some [''A'', ''B'', ''C'', ''D'']"
    by (simp add: four_tasks_def cpm_eval)
  moreover have "map task_id four_nodes = [''A'', ''B'', ''C'', ''D'']"
    "map duration four_nodes = [2, 10 / 3, 13 / 6, 31 / 6]"
    "map earlyStart four_nodes = [0, 2, 2, 16 / 3]"
    "map earlyFinish four_nodes = [2, 16 / 3, 25 / 6, 21 / 2]"
    by (simp_all add: four_nodes_def cpm_eval)
  ultimately show ?thesis
    using h four_tasks_resolve c n by (intro conjI exI[of _ nodes]) simp_all
qed

text \<open>
  The claim as stated gives a node the maximum \<open>earlyFinish\<close> of its dependencies. With
  \<open>A\<close> of expected duration \<open>-6\<close> and \<open>B\<close> depending on \<open>A\<close>, that maximum is \<open>-6\<close>, the
  \<open>earlyFinish\<close> of \<open>A\<close>, yet \<open>B\<close> starts at 0: \<open>maxPredecessorEF\<close> starts from 0.
\<close>

theorem negative_predecessor_floor:
  "\<not> has_cycle negative_first \<and>
   calculateCPM negative_first =
     Inr ([], [node_of (task_of ''A'' (-6) (-6) (-6) []) 0 (-6) 6 0 6 False,
               node_of (task_of ''B'' 6 6 6 [''A'']) 0 6 0 6 0 True]) \<and>
   predecessors [node_of (task_of ''A'' (-6) (-6) (-6) []) 0 (-6) 6 0 6 False,
                 node_of (task_of ''B'' 6 6 6 [''A'']) 0 6 0 6 0 True]
     (node_of (task_of ''B'' 6 6 6 [''A'']) 0 6 0 6 0 True)
     = [node_of (task_of ''A'' (-6) (-6) (-6) []) 0 (-6) 6 0 6 False] \<and>
   earlyFinish (node_of (task_of ''A'' (-6) (-6) (-6) []) 0 (-6) 6 0 6 False) = - 6 \<and>
   earlyStart (node_of (task_of ''B'' 6 6 6 [''A'']) 0 6 0 6 0 True) = 0"
proof -
  have "\<not> has_cycle negative_first" by code_simp
  moreover have "calculateCPM negative_first =
     Inr ([], [node_of (task_of ''A'' (-6) (-6) (-6) []) 0 (-6) 6 0 6 False,
               node_of (task_of ''B'' 6 6 6 [''A'']) 0 6 0 6 0 True])"
    by (simp add: negative_first_def cpm_eval)
  moreover have "predecessors [node_of (task_of ''A'' (-6) (-6) (-6) []) 0 (-6) 6 0 6 False,
                 node_of (task_of ''B'' 6 6 6 [''A'']) 0 6 0 6 0 True]
     (node_of (task_of ''B'' 6 6 6 [''A'']) 0 6 0 6 0 True)
     = [node_of (task_of ''A'' (-6) (-6) (-6) []) 0 (-6) 6 0 6 False]"
    "earlyFinish (node_of (task_of ''A'' (-6) (-6) (-6) []) 0 (-6) 6 0 6 False) = - 6"
    "earlyStart (node_of (task_of ''B'' 6 6 6 [''A'']) 0 6 0 6 0 True) = 0"
    by (simp_all add: predecessors_def node_of_def initial_node_def task_of_def)
  ultimately show ?thesis by simp
qed

subsection \<open>C4: Backward pass\<close>

text \<open>
  Claim C4 (as amended). For every acyclic task list with unique ids \<open>calculateCPM\<close>
  returns whenever every dependency id is the id of a task of the list, and in every
  result it returns for such a list: in the reversed order of the sort no node is
  processed before a node that lists it as a dependency; the project duration is the
  maximum of 0 and the \<open>earlyFinish\<close> of all nodes; a node's \<open>lateFinish\<close> is the project
  duration when no task lists it as a dependency and otherwise the minimum \<open>lateStart\<close>
  of the nodes that list it; \<open>lateStart = lateFinish - duration\<close> and
  \<open>slack = lateStart - earlyStart\<close>.
\<close>

theorem backward_pass_late_times:
  assumes "\<not> has_cycle tasks" "distinct (map task_id tasks)"
  shows "(deps_resolve tasks \<longrightarrow> (\<exists>nodes. calculateCPM tasks = Inr ([], nodes))) \<and>
    (\<forall>out nodes. calculateCPM tasks = Inr (out, nodes) \<longrightarrow>
      (\<exists>sortedIds. topologicalSort tasks = Some sortedIds \<and>
          ready (successors_in (successorsMap_of tasks)) (rev sortedIds)) \<and>
      projectDuration nodes = Max (insert 0 (earlyFinish ` set nodes)) \<and>
      (\<forall>n\<in>set nodes.
          (successors nodes n = [] \<longleftrightarrow> (\<forall>t\<in>set tasks. task_id n \<notin> set (dependencies t))) \<and>
          set (successors_in (successorsMap_of tasks) (task_id n))
            = task_id ` set (successors nodes n) \<and>
          lateFinish n = (if successors nodes n = [] then projectDuration nodes
                          else Min (lateStart ` set (successors nodes n))) \<and>
          lateStart n = lateFinish n - duration n \<and>
          slack n = lateStart n - earlyStart n))"
proof (intro conjI impI allI ballI)
  assume "deps_resolve tasks"
  with assms(1) show "\<exists>nodes. calculateCPM tasks = Inr ([], nodes)"
    by (rule calculateCPM_total)
next
  fix out nodes assume c: "calculateCPM tasks = Inr (out, nodes)"
  from cpm_order[OF assms(1) c] assms(2)
  show "\<exists>sortedIds. topologicalSort tasks = Some sortedIds \<and>
          ready (successors_in (successorsMap_of tasks)) (rev sortedIds)"
    by blast
  show "projectDuration nodes = Max (insert 0 (earlyFinish ` set nodes))"
    by (rule projectDuration_Max)
  fix n assume n: "n \<in> set nodes"
  show "successors nodes n = [] \<longleftrightarrow> (\<forall>t\<in>set tasks. task_id n \<notin> set (dependencies t))"
    using c assms(2) n by (rule no_successors_iff)
  show "set (successors_in (successorsMap_of tasks) (task_id n))
            = task_id ` set (successors nodes n)"
  proof (intro set_eqI iffI)
    fix x assume x: "x \<in> set (successors_in (successorsMap_of tasks) (task_id n))"
    with successors_in_ids[of tasks "task_id n"] calculateCPM_ids_distinct(2)[OF c]
    have "x \<in> task_id ` set nodes" by auto
    then obtain m where m: "m \<in> set nodes" "task_id m = x" by auto
    with x successors_nodes[OF c assms(2) n m(1)]
    show "x \<in> task_id ` set (successors nodes n)"
      by (auto simp: successors_def)
  next
    fix x assume "x \<in> task_id ` set (successors nodes n)"
    then obtain m where "m \<in> set nodes" "task_id n \<in> set (dependencies m)" "x = task_id m"
      by (auto simp: successors_def)
    with successors_nodes[OF c assms(2) n, of m]
    show "x \<in> set (successors_in (successorsMap_of tasks) (task_id n))" by simp
  qed
  show "lateFinish n = (if successors nodes n = [] then projectDuration nodes
                          else Min (lateStart ` set (successors nodes n)))"
    using assms(1) c assms(2) n by (rule cpm_backward)
  show "lateStart n = lateFinish n - duration n"
    using assms(1) c n by (rule cpm_local(1))
  show "slack n = lateStart n - earlyStart n"
    using assms(1) c n by (rule cpm_local(2))
qed

theorem backward_pass_late_times_witness:
  "\<not> has_cycle four_tasks \<and> distinct (map task_id four_tasks) \<and> deps_resolve four_tasks \<and>
   (\<exists>nodes. calculateCPM four_tasks = Inr ([], nodes) \<and>
      projectDuration nodes = 21 / 2 \<and>
      map lateFinish nodes = [2, 16 / 3, 16 / 3, 21 / 2] \<and>
      map lateStart nodes = [0, 2, 19 / 6, 16 / 3] \<and>
      map slack nodes = [0, 0, 7 / 6, 0])"
proof -
  note h = four_tasks_acyclic four_tasks_distinct
  from backward_pass_late_times[OF h] four_tasks_resolve obtain nodes where
    c: "calculateCPM four_tasks = Inr ([], nodes)" by blast
  with four_tasks_result have n: "nodes = four_nodes" by simp
  have "projectDuration four_nodes = 21 / 2"
    "map lateFinish four_nodes = [2, 16 / 3, 16 / 3, 21 / 2]"
    "map lateStart four_nodes = [0, 2, 19 / 6, 16 / 3]"
    "map slack four_nodes = [0, 0, 7 / 6, 0]"
    by (simp_all add: four_nodes_def projectDuration_def cpm_eval)
  then show ?thesis
    using h four_tasks_resolve c n by (intro conjI exI[of _ nodes]) simp_all
qed

text \<open>
  The claim as stated sets the \<open>lateFinish\<close> of a node without successors to the maximum
  \<open>earlyFinish\<close> of all nodes. For the single task \<open>A\<close> of expected duration \<open>-6\<close> that
  maximum is \<open>-6\<close>, and \<open>lateFinish\<close> is 0: \<open>projectDuration\<close> starts from 0.
\<close>

theorem negative_project_duration_floor:
  "\<not> has_cycle [task_of ''A'' (-6) (-6) (-6) []] \<and>
   calculateCPM [task_of ''A'' (-6) (-6) (-6) []]
     = Inr ([], [node_of (task_of ''A'' (-6) (-6) (-6) []) 0 (-6) 6 0 6 False]) \<and>
   successors [node_of (task_of ''A'' (-6) (-6) (-6) []) 0 (-6) 6 0 6 False]
     (node_of (task_of ''A'' (-6) (-6) (-6) []) 0 (-6) 6 0 6 False) = [] \<and>
   Max (earlyFinish ` set [node_of (task_of ''A'' (-6) (-6) (-6) []) 0 (-6) 6 0 6 False])
     = - 6 \<and>
   lateFinish (node_of (task_of ''A'' (-6) (-6) (-6) []) 0 (-6) 6 0 6 False) = 0"
proof -
  have "\<not> has_cycle [task_of ''A'' (-6) (-6) (-6) []]" by code_simp
  moreover have "calculateCPM [task_of ''A'' (-6) (-6) (-6) []]
     = Inr ([], [node_of (task_of ''A'' (-6) (-6) (-6) []) 0 (-6) 6 0 6 False])"
    by (simp add: cpm_eval)
  moreover have "successors [node_of (task_of ''A'' (-6) (-6) (-6) []) 0 (-6) 6 0 6 False]
     (node_of (task_of ''A'' (-6) (-6) (-6) []) 0 (-6) 6 0 6 False) = []"
    "Max (earlyFinish ` set [node_of (task_of ''A'' (-6) (-6) (-6) []) 0 (-6) 6 0 6 False])
     = - 6"
    "lateFinish (node_of (task_of ''A'' (-6) (-6) (-6) []) 0 (-6) 6 0 6 False) = 0"
    by (simp_all add: successors_def node_of_def initial_node_def task_of_def)
  ultimately show ?thesis by simp
qed

subsection \<open>C5: Slack\<close>



subsection \<open>C6: Critical path\<close>




subsection \<open>C7: Expected duration\<close>

text \<open>
  Claim C7. \<open>calculateExpectedTime\<close> is \<open>(optimistic + 4 * likely + pessimistic) / 6\<close>.
  \<open>calculateCPM\<close> returns whenever the graph has a cycle or every dependency id is the
  id of a task, and in every result it returns the duration of every node is that
  formula of the estimates the node carries, which are those of a task of the input
  with the node's id; every task has a node of its id, which for unique ids has the
  task's expected duration. Nothing is checked about the estimates: the statement holds
  for all rationals, negative and zero included.
\<close>

theorem expected_duration_formula:
  "calculateExpectedTime t = (optimistic t + 4 * likely t + pessimistic t) / 6 \<and>
   (has_cycle tasks \<or> deps_resolve tasks \<longrightarrow>
      (\<exists>out nodes. calculateCPM tasks = Inr (out, nodes))) \<and>
   (\<forall>out nodes. calculateCPM tasks = Inr (out, nodes) \<longrightarrow>
     (\<forall>n\<in>set nodes.
        duration n = (optimistic n + 4 * likely n + pessimistic n) / 6 \<and>
        (\<exists>t\<in>set tasks. task_id t = task_id n \<and> optimistic t = optimistic n \<and>
           likely t = likely n \<and> pessimistic t = pessimistic n \<and>
           duration n = calculateExpectedTime t)) \<and>
     (\<forall>t\<in>set tasks. \<exists>n\<in>set nodes. task_id n = task_id t \<and>
        (distinct (map task_id tasks) \<longrightarrow> duration n = calculateExpectedTime t)))"
proof (intro conjI impI allI ballI)
  show "calculateExpectedTime t = (optimistic t + 4 * likely t + pessimistic t) / 6"
    by (simp add: calculateExpectedTime_def)
next
  assume "has_cycle tasks \<or> deps_resolve tasks"
  then show "\<exists>out nodes. calculateCPM tasks = Inr (out, nodes)"
    by (rule calculateCPM_returns)
next
  fix out nodes n
  assume c: "calculateCPM tasks = Inr (out, nodes)" and n: "n \<in> set nodes"
  from calculateCPM_node_entry[OF c n] obtain t' where t': "t' \<in> set tasks"
    and u: "unchanged_by_passes t' n" by blast
  note f = unchanged_by_passes_fields[OF u]
  show "duration n = (optimistic n + 4 * likely n + pessimistic n) / 6"
    using f by (simp add: calculateExpectedTime_def)
  show "\<exists>t\<in>set tasks. task_id t = task_id n \<and> optimistic t = optimistic n \<and>
           likely t = likely n \<and> pessimistic t = pessimistic n \<and>
           duration n = calculateExpectedTime t"
    using t' f by (intro bexI[of _ t']) simp_all
next
  fix out nodes t'
  assume c: "calculateCPM tasks = Inr (out, nodes)" and t': "t' \<in> set tasks"
  then have "task_id t' \<in> task_id ` set nodes"
    using calculateCPM_ids_distinct(2)[OF c] by auto
  then obtain n where n: "n \<in> set nodes" "task_id n = task_id t'" by auto
  have "duration n = calculateExpectedTime t'" if d: "distinct (map task_id tasks)"
  proof -
    from calculateCPM_node_entry[OF c n(1)] obtain t'' where
      t'': "map_of (taskMap_of tasks) (task_id n) = Some t''" "unchanged_by_passes t'' n"
      by blast
    from taskMap_of_distinct_ids[OF d t'] n(2) t''(1) have "t'' = t'" by simp
    with unchanged_by_passes_fields(7)[OF t''(2)] show ?thesis by simp
  qed
  with n show "\<exists>n\<in>set nodes. task_id n = task_id t' \<and>
        (distinct (map task_id tasks) \<longrightarrow> duration n = calculateExpectedTime t')"
    by blast
qed

theorem expected_duration_formula_witness:
  "calculateExpectedTime (task_of ''A'' (-6) 0 3 []) = - 1 / 2 \<and>
   deps_resolve negative_estimates \<and> distinct (map task_id negative_estimates) \<and>
   (\<exists>out nodes. calculateCPM negative_estimates = Inr (out, nodes) \<and>
      map task_id nodes = [''A'', ''B''] \<and> map duration nodes = [- 1 / 2, 10 / 3])"
proof -
  have r: "deps_resolve negative_estimates"
    by (simp add: deps_resolve_def negative_estimates_def task_of_def)
  have d: "distinct (map task_id negative_estimates)"
    by (simp add: negative_estimates_def task_of_def)
  from expected_duration_formula[of "task_of ''A'' (-6) 0 3 []" negative_estimates] r
  obtain out nodes where c: "calculateCPM negative_estimates = Inr (out, nodes)"
    and e: "calculateExpectedTime (task_of ''A'' (-6) 0 3 [])
      = (optimistic (task_of ''A'' (-6) 0 3 []) + 4 * likely (task_of ''A'' (-6) 0 3 [])
          + pessimistic (task_of ''A'' (-6) 0 3 [])) / 6"
    by blast
  have "calculateCPM negative_estimates =
     Inr ([], [node_of (task_of ''A'' (-6) 0 3 []) 0 (- 1 / 2) (1 / 2) 0 (1 / 2) False,
               node_of (task_of ''B'' 2 3 6 [''A'']) 0 (10 / 3) 0 (10 / 3) 0 True])"
    by (simp add: negative_estimates_def cpm_eval)
  with c have "map task_id nodes = [''A'', ''B'']" "map duration nodes = [- 1 / 2, 10 / 3]"
    by (auto simp: cpm_eval)
  with c r d e show ?thesis
    by (intro conjI exI[of _ out] exI[of _ nodes]) (simp_all add: task_of_def)
qed

subsection \<open>C8: Calendar projection\<close>

text \<open>
  Claim C8. The projection is to map a node to the start date plus
  \<open>round(earlyStart)\<close> and plus \<open>round(earlyFinish)\<close> days, so that start date
  2026-01-01 with \<open>earlyStart = 0\<close> and \<open>earlyFinish = 5\<close> gives 2026-01-01 and
  2026-01-06. \<open>computeCalendarDates\<close> builds both dates in local time (local midnight of
  the start date, moved by \<open>setDate\<close>) but prints them with \<open>toISOString\<close>, which is
  UTC: on a host whose local time is ahead of UTC, here by one hour, local midnight of
  2026-01-01 is 2025-12-31T23:00:00Z and every date comes out one day early.
\<close>

theorem calendar_dates_east_of_UTC:
  "new_Date (host_at 60) (''2026-01-01'' @ ''T00:00:00'') = Some 1767222000000 \<and>
   toISOString (Some 1767222000000) = Inr ''2025-12-31T23:00:00.000Z'' \<and>
   computeCalendarDates (host_at 60) [node_A_0_5] ''2026-01-01''
     = Inr [(''A'', \<lparr>startDate = ''2025-12-31'', endDate = ''2026-01-05''\<rparr>)]"
  by code_simp

subsection \<open>C9: Invalid start date\<close>

text \<open>
  Claim C9. When the start date does not parse (the \<open>Date\<close> built from it is invalid),
  \<open>computeCalendarDates\<close> returns the empty map and throws nothing, whatever the nodes
  and the host. The function only reads the nodes: the model has no way to change them.
\<close>

theorem invalid_start_date_empty_result:
  "new_Date h (projectStartDate @ ''T00:00:00'') = None
     \<Longrightarrow> computeCalendarDates h pertNodes projectStartDate = Inr []"
  by (simp add: computeCalendarDates_def)

theorem invalid_start_date_empty_result_witness:
  "new_Date (host_at 0) (''next week'' @ ''T00:00:00'') = None \<and>
   computeCalendarDates (host_at 0) four_nodes ''next week'' = Inr []"
proof -
  have h: "new_Date (host_at 0) (''next week'' @ ''T00:00:00'') = None"
    by code_simp
  from h invalid_start_date_empty_result[OF h, of four_nodes] show ?thesis by simp
qed

subsection \<open>C10: Result for a cyclic graph\<close>

text \<open>
  Claim C10. Whenever the dependency graph contains a cycle, \<open>calculateCPM\<close> returns
  normally one node per distinct task id; each node has the expected duration of its
  task (the last task of that id) by the three-point formula, and \<open>earlyStart\<close>,
  \<open>earlyFinish\<close>, \<open>lateStart\<close>, \<open>lateFinish\<close> and \<open>slack\<close> are 0 and \<open>isCritical\<close> is false.
\<close>

theorem cycle_yields_zeroed_nodes:
  assumes "has_cycle tasks"
  shows "\<exists>out nodes. calculateCPM tasks = Inr (out, nodes) \<and>
     distinct (map task_id nodes) \<and> set (map task_id nodes) = set (map task_id tasks) \<and>
     (\<forall>n\<in>set nodes.
        duration n = (optimistic n + 4 * likely n + pessimistic n) / 6 \<and>
        (\<exists>t\<in>set tasks. task_id t = task_id n \<and> optimistic t = optimistic n \<and>
           likely t = likely n \<and> pessimistic t = pessimistic n) \<and>
        earlyStart n = 0 \<and> earlyFinish n = 0 \<and> lateStart n = 0 \<and> lateFinish n = 0 \<and>
        slack n = 0 \<and> \<not> isCritical n)"
proof -
  let ?nodes = "map snd (initial_nodeMap tasks)"
  have c: "calculateCPM tasks = Inr ([''Cycle detected in graph!''], ?nodes)"
    using assms by (rule calculateCPM_cycle)
  have "duration n = (optimistic n + 4 * likely n + pessimistic n) / 6 \<and>
        (\<exists>t\<in>set tasks. task_id t = task_id n \<and> optimistic t = optimistic n \<and>
           likely t = likely n \<and> pessimistic t = pessimistic n) \<and>
        earlyStart n = 0 \<and> earlyFinish n = 0 \<and> lateStart n = 0 \<and> lateFinish n = 0 \<and>
        slack n = 0 \<and> \<not> isCritical n" if "n \<in> set ?nodes" for n
  proof -
    from that obtain k where "(k, n) \<in> set (initial_nodeMap tasks)" by auto
    from initial_nodeMap_entry[OF this] obtain t where "n = initial_node t" "t \<in> set tasks"
      by blast
    then show ?thesis
      by (auto simp: initial_node_def calculateExpectedTime_def intro!: bexI[of _ t])
  qed
  with c calculateCPM_ids_distinct[OF c] show ?thesis by blast
qed

theorem cycle_yields_zeroed_nodes_witness:
  "has_cycle cycle_ABC \<and>
   (\<exists>out nodes. calculateCPM cycle_ABC = Inr (out, nodes) \<and>
      map task_id nodes = [''A'', ''B'', ''C''] \<and>
      map duration nodes = [2, 10 / 3, 13 / 6] \<and>
      map earlyFinish nodes = [0, 0, 0] \<and> map slack nodes = [0, 0, 0] \<and>
      map isCritical nodes = [False, False, False])"
proof -
  have h: "has_cycle cycle_ABC" by code_simp
  have c: "calculateCPM cycle_ABC =
     Inr ([''Cycle detected in graph!''], map snd (initial_nodeMap cycle_ABC))"
    using h by (rule calculateCPM_cycle)
  have v: "map task_id (map snd (initial_nodeMap cycle_ABC)) = [''A'', ''B'', ''C'']"
    "map duration (map snd (initial_nodeMap cycle_ABC)) = [2, 10 / 3, 13 / 6]"
    "map earlyFinish (map snd (initial_nodeMap cycle_ABC)) = [0, 0, 0]"
    "map slack (map snd (initial_nodeMap cycle_ABC)) = [0, 0, 0]"
    "map isCritical (map snd (initial_nodeMap cycle_ABC)) = [False, False, False]"
    by (simp_all add: initial_nodeMap_def cycle_ABC_def task_of_def initial_node_def
        calculateExpectedTime_def)
  from cycle_yields_zeroed_nodes[OF h] obtain out nodes where
    o: "calculateCPM cycle_ABC = Inr (out, nodes)" by blast
  with c have "nodes = map snd (initial_nodeMap cycle_ABC)" by simp
  with o v h show ?thesis
    by (intro conjI exI[of _ out] exI[of _ nodes]) simp_all
qed

end
